theory Spec2Isabelle
  imports Complex_Main "HOL-Library.Sublist"
begin

section \<open>Python values used by the scrapers\<close>

text \<open>
  A Python \<open>str\<close> is modelled as a \<open>string\<close>: one \<open>char\<close> stands for one code point
  below 256, so \<open>length\<close> is Python's \<open>len\<close> on such strings. The exceptions that the
  modelled library calls can raise are values of \<open>py_error\<close>; a function that can raise
  returns \<open>py_error + 'a\<close>, with \<open>Inl\<close> for the exception.
\<close>

datatype py_error = ValueError | IndexError | TypeError

text \<open>Truthiness of an \<open>Optional[str]\<close>: \<open>None\<close> and the empty string are falsy.\<close>

definition truthy :: "string option \<Rightarrow> bool" where
  "truthy t = (case t of None \<Rightarrow> False | Some s \<Rightarrow> s \<noteq> [])"

text \<open>\<open>sub in s\<close> on strings: \<open>sub\<close> occurs in \<open>s\<close> as a contiguous block.\<close>

fun str_in :: "string \<Rightarrow> string \<Rightarrow> bool" where
  "str_in sub [] = (sub = [])"
| "str_in sub (c # cs) = (prefix sub (c # cs) \<or> str_in sub cs)"

text \<open>\<open>s.split(sep)\<close> for a one-character separator, and \<open>xs[0]\<close>.\<close>

fun py_split :: "char \<Rightarrow> string \<Rightarrow> string list" where
  "py_split sep [] = [[]]"
| "py_split sep (c # cs) =
     (if c = sep then [] # py_split sep cs
      else (case py_split sep cs of
              [] \<Rightarrow> [[c]]
            | p # ps \<Rightarrow> (c # p) # ps))"

definition index0 :: "'a list \<Rightarrow> py_error + 'a" where
  "index0 xs = (case xs of [] \<Rightarrow> Inl IndexError | x # _ \<Rightarrow> Inr x)"

text \<open>
  \<open>int(s)\<close> on a string of code points below 256, base 10. The characters that \<open>int\<close>
  strips from both ends are those with code points 9 to 13, 32, 133 and 160 (the
  separators 28 to 31, which \<open>str.strip\<close> removes, are not among them). One sign is
  allowed, then come decimal digits in which single underscores may separate digits. A
  string with more than 4300 digits (the default of \<open>sys.int_max_str_digits\<close>; leading
  zeros count, underscores do not) raises \<open>ValueError\<close>, as does anything else.
\<close>

definition is_digit :: "char \<Rightarrow> bool" where
  "is_digit c = (c \<in> set ''0123456789'')"

definition digit_val :: "char \<Rightarrow> nat" where
  "digit_val c = of_char c - 48"

definition is_space :: "char \<Rightarrow> bool" where
  "is_space c = (let n = (of_char c :: nat) in
     (9 \<le> n \<and> n \<le> 13) \<or> n = 32 \<or> n = 133 \<or> n = 160)"

definition py_strip :: "string \<Rightarrow> string" where
  "py_strip s = rev (dropWhile is_space (rev (dropWhile is_space s)))"

fun int_digits :: "nat \<Rightarrow> string \<Rightarrow> nat option" where
  "int_digits acc [] = Some acc"
| "int_digits acc [c] = (if is_digit c then Some (acc * 10 + digit_val c) else None)"
| "int_digits acc (c # d # cs) =
     (if is_digit c then int_digits (acc * 10 + digit_val c) (d # cs)
      else if c = CHR ''_'' \<and> is_digit d then int_digits (acc * 10 + digit_val d) cs
      else None)"

definition int_unsigned :: "string \<Rightarrow> nat option" where
  "int_unsigned s = (case s of [] \<Rightarrow> None
     | c # cs \<Rightarrow> if is_digit c then int_digits (digit_val c) cs else None)"

definition max_str_digits :: nat where
  "max_str_digits = 4300"

definition py_int :: "string \<Rightarrow> py_error + int" where
  "py_int s =
     (let t = py_strip s;
          (neg, body) = (case t of [] \<Rightarrow> (False, [])
                         | c # cs \<Rightarrow> if c = CHR ''-'' then (True, cs)
                                    else if c = CHR ''+'' then (False, cs)
                                    else (False, t))
      in case int_unsigned body of
           None \<Rightarrow> Inl ValueError
         | Some n \<Rightarrow>
             if max_str_digits < length (filter is_digit body) then Inl ValueError
             else Inr (if neg then - int n else int n))"

section \<open>Pagination tokens (file 14)\<close>

text \<open>
  The second component of the pair returned by \<open>_normalize_pagination_token\<close> is
  \<open>None\<close>, the token itself or the parsed offset.
\<close>

datatype tok_value = NoValue | StrValue string | IntValue int

text \<open>
  \<open>_normalize_pagination_token\<close>: the body of the \<open>try\<close> is \<open>offset_branch\<close>; the handler
  catches \<open>ValueError\<close> and \<open>IndexError\<close> only, any other exception would propagate.
\<close>

definition offset_branch :: "string \<Rightarrow> py_error + (string \<times> tok_value)" where
  "offset_branch token =
     (case index0 (py_split CHR ''#'' token) of
        Inl e \<Rightarrow> Inl e
      | Inr offset \<Rightarrow>
          (case py_int offset of
             Inl e \<Rightarrow> Inl e
           | Inr n \<Rightarrow> Inr (''offset'', IntValue n)))"

definition normalize_pagination_token :: "string option \<Rightarrow> py_error + (string \<times> tok_value)" where
  "normalize_pagination_token token =
     (if \<not> truthy token then Inr (''api'', NoValue)
      else let t = the token in
        if CHR ''#'' \<in> set t then
          (case offset_branch t of
             Inl ValueError \<Rightarrow> Inr (''api'', StrValue t)
           | Inl IndexError \<Rightarrow> Inr (''api'', StrValue t)
           | r \<Rightarrow> r)
        else Inr (''api'', StrValue t))"

section \<open>Listing pages and the pagination walker (file 14)\<close>

text \<open>
  \<open>re.findall(r'/ad-library/detail/(\d+)', html)\<close>: the scan goes left to right; where
  the literal is followed by at least one digit the maximal run of digits is captured
  and the scan resumes after the match, otherwise it moves one character on. The first
  argument of \<open>findall_detail\<close> counts the characters of a match still to be skipped.
\<close>

definition detail_prefix :: string where
  "detail_prefix = ''/ad-library/detail/''"

definition match_detail :: "string \<Rightarrow> string option" where
  "match_detail s =
     (if prefix detail_prefix s then
        (let ds = takeWhile is_digit (drop (length detail_prefix) s)
         in if ds = [] then None else Some ds)
      else None)"

fun findall_detail :: "nat \<Rightarrow> string \<Rightarrow> string list" where
  "findall_detail k [] = []"
| "findall_detail k (c # cs) =
     (if 0 < k then findall_detail (k - 1) cs
      else (case match_detail (c # cs) of
              None \<Rightarrow> findall_detail 0 cs
            | Some ds \<Rightarrow> ds # findall_detail (length detail_prefix + length ds - 1) cs))"

text \<open>\<open>extract_ad_ids_from_html\<close>: the loop over the matches with its \<open>seen\<close> set.\<close>

definition extract_ad_ids_from_html :: "string \<Rightarrow> string list" where
  "extract_ad_ids_from_html html_fragment =
     snd (foldl (\<lambda>(seen, ad_ids) ad_id.
                   if ad_id \<notin> seen then (insert ad_id seen, ad_ids @ [ad_id])
                   else (seen, ad_ids))
                ({}, []) (findall_detail 0 html_fragment))"

text \<open>
  What a fetch returns: \<open>None\<close> for a failed request (or an empty dictionary), otherwise
  the \<open>html\<close> entry (empty when absent) and the \<open>paginationToken\<close> entry.
\<close>

record page_data =
  html :: string
  paginationToken :: "string option"

text \<open>
  The transport is outside the code under study: \<open>fetch_api_page\<close> and
  \<open>fetch_offset_page\<close> are given by an endpoint, which may answer differently from call
  to call. The first argument is the number of fetches made before in this walk.
\<close>

record endpoint =
  fetch_api_page :: "nat \<Rightarrow> tok_value \<Rightarrow> page_data option"
  fetch_offset_page :: "nat \<Rightarrow> tok_value \<Rightarrow> page_data option"

text \<open>The dispatch on the mode in \<open>scrape_search_pages\<close>.\<close>

definition fetch_page :: "endpoint \<Rightarrow> nat \<Rightarrow> string \<times> tok_value \<Rightarrow> page_data option" where
  "fetch_page env n req =
     (if fst req = ''api'' then fetch_api_page env n (snd req)
      else if fst req = ''offset'' then fetch_offset_page env n (snd req)
      else fetch_api_page env n NoValue)"

text \<open>
  The local variables of \<open>scrape_search_pages\<close>. \<open>fetch_log\<close> and \<open>page_log\<close> are not in
  the source: they record, oldest first, the token and request of every fetch made and
  the ids extracted from every page that reached the extraction.
\<close>

record walk_state =
  all_ad_ids :: "string list"
  pagination_token :: "string option"
  page_num :: int
  seen_tokens :: "string set"
  fetch_log :: "(string option \<times> (string \<times> tok_value)) list"
  page_log :: "string list list"

datatype loop_exit = Continue | Break | Raised py_error

text \<open>The inner loop that appends the new ids of one page, up to \<open>max_results\<close>.\<close>

fun add_ad_ids :: "int \<Rightarrow> string list \<Rightarrow> string list \<Rightarrow> string list" where
  "add_ad_ids max_results acc [] = acc"
| "add_ad_ids max_results acc (ad_id # rest) =
     (if max_results \<le> int (length acc) then acc
      else add_ad_ids max_results (if ad_id \<notin> set acc then acc @ [ad_id] else acc) rest)"

text \<open>
  The part of the loop body after a page with a non-empty \<open>html\<close> has arrived: the
  extraction, the accumulation, and the tests on the next token and the page counter.
\<close>

definition process_page :: "int \<Rightarrow> walk_state \<Rightarrow> page_data \<Rightarrow> loop_exit \<times> walk_state" where
  "process_page max_results st d =
     (let token = pagination_token st;
          ad_ids = extract_ad_ids_from_html (html d);
          st1 = st\<lparr>page_log := page_log st @ [ad_ids]\<rparr>
      in if ad_ids = [] \<and> \<not> truthy (paginationToken d) then (Break, st1)
         else
           let ads_before = length (all_ad_ids st1);
               st2 = (if ad_ids = [] then st1
                      else st1\<lparr>all_ad_ids := add_ad_ids max_results (all_ad_ids st1) ad_ids\<rparr>);
               ads_added = length (all_ad_ids st2) - ads_before
           in if ad_ids \<noteq> [] \<and> ads_added = 0 \<and> truthy token \<and> the token \<in> seen_tokens st2
              then (Break, st2)
              else
                let next_token = paginationToken d
                in if next_token = token then (Break, st2)
                   else
                     let st3 = st2\<lparr>pagination_token := next_token\<rparr>
                     in if \<not> truthy next_token then (Break, st3)
                        else
                          let st4 = st3\<lparr>page_num := page_num st3 + 1\<rparr>
                          in if 100 < page_num st4 then (Break, st4) else (Continue, st4))"

text \<open>One pass through the body of the \<open>while\<close> loop.\<close>

definition walk_body :: "endpoint \<Rightarrow> int \<Rightarrow> walk_state \<Rightarrow> loop_exit \<times> walk_state" where
  "walk_body env max_results st =
     (let token = pagination_token st
      in if truthy token \<and> the token \<in> seen_tokens st then (Break, st)
         else
           let st1 = (if truthy token
                      then st\<lparr>seen_tokens := insert (the token) (seen_tokens st)\<rparr> else st)
           in case normalize_pagination_token token of
                Inl e \<Rightarrow> (Raised e, st1)
              | Inr req \<Rightarrow>
                  let data = fetch_page env (length (fetch_log st1)) req;
                      st2 = st1\<lparr>fetch_log := fetch_log st1 @ [(token, req)]\<rparr>
                  in case data of
                       None \<Rightarrow> (Break, st2)
                     | Some d \<Rightarrow>
                         if html d = [] then (Break, st2)
                         else process_page max_results st2 d)"

lemma process_page_continue:
  "process_page max_results st d = (Continue, st') \<Longrightarrow>
     page_num st' = page_num st + 1 \<and> page_num st' \<le> 100"
  by (auto simp: process_page_def Let_def split: if_splits)

lemma walk_body_continue:
  "walk_body env max_results st = (Continue, st') \<Longrightarrow>
     page_num st' = page_num st + 1 \<and> page_num st' \<le> 100"
  by (auto simp: walk_body_def Let_def split: if_splits sum.splits option.splits
      dest!: process_page_continue)

text \<open>
  The \<open>while\<close> loop. Every pass that does not leave the loop increases \<open>page_num\<close>, which
  never passes 101, so the loop ends. The result is the raised exception, if any, and the
  final state.
\<close>

function walk_loop :: "endpoint \<Rightarrow> int \<Rightarrow> walk_state \<Rightarrow> py_error option \<times> walk_state" where
  "walk_loop env max_results st =
     (if int (length (all_ad_ids st)) < max_results then
        (case walk_body env max_results st of
           (Continue, st') \<Rightarrow> walk_loop env max_results st'
         | (Break, st') \<Rightarrow> (None, st')
         | (Raised e, st') \<Rightarrow> (Some e, st'))
      else (None, st))"
  by pat_completeness auto
termination
proof (relation "measure (\<lambda>(env, max_results, st). nat (101 - page_num st))", goal_cases)
  case 1
  show ?case by simp
next
  case (2 env max_results st x st')
  then have "walk_body env max_results st = (Continue, st')"
    by simp
  from walk_body_continue [OF this] show ?case
    by simp
qed

definition initial_walk_state :: walk_state where
  "initial_walk_state =
     \<lparr>all_ad_ids = [], pagination_token = None, page_num = 1, seen_tokens = {},
      fetch_log = [], page_log = []\<rparr>"

text \<open>\<open>scrape_search_pages\<close> returns the accumulated list, unless an exception escaped.\<close>

definition walk :: "endpoint \<Rightarrow> int \<Rightarrow> py_error option \<times> walk_state" where
  "walk env max_results = walk_loop env max_results initial_walk_state"

definition scrape_search_pages :: "endpoint \<Rightarrow> int \<Rightarrow> py_error + string list" where
  "scrape_search_pages env max_results =
     (case walk env max_results of
        (Some e, st) \<Rightarrow> Inl e
      | (None, st) \<Rightarrow> Inr (all_ad_ids st))"

text \<open>
  The ids of a list in first-seen order: each element once, at the place of its first
  occurrence. It is the yardstick for the accumulated list.
\<close>

primrec first_seen :: "'a list \<Rightarrow> 'a list" where
  "first_seen [] = []"
| "first_seen (x # xs) = x # filter (\<lambda>y. y \<noteq> x) (first_seen xs)"

text \<open>
  What the walker maintains about its list: no id twice, and the list is the first
  \<open>max_results\<close> ids, in first-seen order, of the pages processed so far.
\<close>

definition ids_invariant :: "int \<Rightarrow> walk_state \<Rightarrow> bool" where
  "ids_invariant m s =
     (distinct (all_ad_ids s)
      \<and> all_ad_ids s = take (nat m) (first_seen (concat (page_log s))))"

text \<open>
  A listing of two pages that overlap: ids 11, 22, 33 with a continuation token, then
  22, 33, 44 without one.
\<close>

definition overlapping_pages :: endpoint where
  "overlapping_pages =
     \<lparr>fetch_api_page = (\<lambda>n v.
        if v = NoValue then
          Some \<lparr>html = ''<a href=/ad-library/detail/11> <a href=/ad-library/detail/22> <a href=/ad-library/detail/33>'',
                paginationToken = Some ''next''\<rparr>
        else if v = StrValue ''next'' then
          Some \<lparr>html = ''<a href=/ad-library/detail/22> <a href=/ad-library/detail/33> <a href=/ad-library/detail/44>'',
                paginationToken = None\<rparr>
        else None),
      fetch_offset_page = (\<lambda>n v. None)\<rparr>"

text \<open>
  What the walker maintains about the tokens it has fetched with: none twice, every
  non-empty one is in \<open>seen_tokens\<close>, and after the first fetch the current token is
  non-empty.
\<close>

definition tokens_invariant :: "walk_state \<Rightarrow> bool" where
  "tokens_invariant s =
     (distinct (map fst (fetch_log s))
      \<and> (\<forall>t \<in> set (map fst (fetch_log s)). truthy t \<longrightarrow> the t \<in> seen_tokens s)
      \<and> (fetch_log s \<noteq> [] \<longrightarrow> truthy (pagination_token s)))"

text \<open>
  A listing whose tokens run in a cycle (none, a, b, a, ...), with one page (token c)
  that hands back the token it was fetched with; and two states of a walk over it.
\<close>

definition cycling_tokens :: endpoint where
  "cycling_tokens =
     \<lparr>fetch_api_page = (\<lambda>n v.
        if v = NoValue then
          Some \<lparr>html = ''/ad-library/detail/1'', paginationToken = Some ''a''\<rparr>
        else if v = StrValue ''a'' then
          Some \<lparr>html = ''/ad-library/detail/2'', paginationToken = Some ''b''\<rparr>
        else if v = StrValue ''b'' then
          Some \<lparr>html = ''/ad-library/detail/3'', paginationToken = Some ''a''\<rparr>
        else if v = StrValue ''c'' then
          Some \<lparr>html = ''/ad-library/detail/4'', paginationToken = Some ''c''\<rparr>
        else None),
      fetch_offset_page = (\<lambda>n v. None)\<rparr>"

definition back_at_a :: walk_state where
  "back_at_a =
     \<lparr>all_ad_ids = [''1'', ''2'', ''3''], pagination_token = Some ''a'', page_num = 4,
      seen_tokens = {''a'', ''b''},
      fetch_log = [(None, (''api'', NoValue)), (Some ''a'', (''api'', StrValue ''a'')),
                   (Some ''b'', (''api'', StrValue ''b''))],
      page_log = [[''1''], [''2''], [''3'']]\<rparr>"

definition at_c :: walk_state where
  "at_c =
     \<lparr>all_ad_ids = [], pagination_token = Some ''c'', page_num = 1,
      seen_tokens = {}, fetch_log = [], page_log = []\<rparr>"










section \<open>Detail pages (file 14)\<close>

text \<open>
  \<open>str.lower\<close> on code points below 256: the ASCII capitals and the Latin-1 capitals
  (192 to 222 without the multiplication sign 215) move up by 32.
\<close>

definition lower_char :: "char \<Rightarrow> char" where
  "lower_char c = (let n = (of_char c :: nat) in
     if (65 \<le> n \<and> n \<le> 90) \<or> (192 \<le> n \<and> n \<le> 222 \<and> n \<noteq> 215)
     then char_of (n + 32) else c)"

definition py_lower :: "string \<Rightarrow> string" where
  "py_lower s = map lower_char s"

text \<open>
  The denylist of \<open>scrape_ad_detail_with_bs4\<close>. The source has one more entry, \<open>see more\<close>
  behind an ellipsis (code point 8230): it is left out, since no modelled string holds
  that code point and every text with that entry also holds \<open>see more\<close>.
\<close>

definition skip_phrases :: "string list" where
  "skip_phrases =
     [''cookie'', ''privacy'', ''policy'', ''about'', ''linkedin corporation'',
      ''please note'', ''terms of service'', ''ad details'', ''view details'',
      ''see more'', ''sign in'', ''sign up'', ''join now'']"

text \<open>The test that admits one element text into \<open>ad_text_parts\<close>.\<close>

definition admits :: "string set \<Rightarrow> string \<Rightarrow> bool" where
  "admits seen_texts text =
     (text \<noteq> [] \<and> 10 < length text \<and> length text < 2000 \<and> text \<notin> seen_texts
      \<and> \<not> list_ex (\<lambda>skip. str_in skip (py_lower text)) skip_phrases)"

text \<open>
  The two nested loops over the selectors and over the first ten elements of each. The
  argument holds, for every selector in order, the stripped texts of the elements it
  selects; the selection itself belongs to the HTML layer.
\<close>

definition collect_text_parts :: "string list list \<Rightarrow> string list" where
  "collect_text_parts selected =
     snd (foldl (\<lambda>(seen_texts, ad_text_parts) text.
                   if admits seen_texts text
                   then (insert text seen_texts, ad_text_parts @ [text])
                   else (seen_texts, ad_text_parts))
                ({}, []) (concat (map (take 10) selected)))"

text \<open>The loop that builds \<open>unique_texts\<close>.\<close>

definition is_duplicate :: "string list \<Rightarrow> string \<Rightarrow> bool" where
  "is_duplicate unique_texts text =
     list_ex (\<lambda>existing. str_in text existing \<or> str_in existing text) unique_texts"

definition unique_texts :: "string list \<Rightarrow> string list" where
  "unique_texts ad_text_parts =
     foldl (\<lambda>unique text. if is_duplicate unique text then unique else unique @ [text])
           [] ad_text_parts"

text \<open>The blocks that make up \<open>ad_text\<close>, and \<open>ad_text\<close> itself.\<close>

definition kept_texts :: "string list list \<Rightarrow> string list" where
  "kept_texts selected = take 5 (unique_texts (collect_text_parts selected))"

fun join :: "string \<Rightarrow> string list \<Rightarrow> string" where
  "join sep [] = []"
| "join sep [x] = x"
| "join sep (x # y # ys) = x @ sep @ join sep (y # ys)"

definition ad_text :: "string list list \<Rightarrow> string option" where
  "ad_text selected =
     (if collect_text_parts selected = [] then None
      else Some (join [CHR 0x0A, CHR 0x0A] (kept_texts selected)))"

text \<open>
  The ad type. \<open>marker\<close> is what the loop over \<open>ad_type_patterns\<close> found in the page text;
  \<open>extracted\<close> is what \<open>_extract_assets_with_bs4\<close> returns. The record starts with empty
  asset lists, the fallback reads the lists of the record, and the extracted assets are
  stored afterwards, as in the source.
\<close>

record asset_lists =
  images :: "string list"
  videos :: "string list"
  posters :: "string list"

record ad_detail =
  ad_type :: "string option"
  assets :: asset_lists

definition new_ad_detail :: ad_detail where
  "new_ad_detail = \<lparr>ad_type = None, assets = \<lparr>images = [], videos = [], posters = []\<rparr>\<rparr>"

definition infer_ad_type :: "ad_detail \<Rightarrow> ad_detail" where
  "infer_ad_type d =
     (if \<not> truthy (ad_type d) then
        (if videos (assets d) \<noteq> [] then d\<lparr>ad_type := Some ''Video Ad''\<rparr>
         else if 1 < length (images (assets d)) then d\<lparr>ad_type := Some ''Carousel Ad''\<rparr>
         else if images (assets d) \<noteq> [] then d\<lparr>ad_type := Some ''Image Ad''\<rparr>
         else d)
      else d)"

definition scrape_ad_type_and_assets :: "string option \<Rightarrow> asset_lists \<Rightarrow> ad_detail" where
  "scrape_ad_type_and_assets marker extracted =
     (let d1 = (case marker of None \<Rightarrow> new_ad_detail
                | Some m \<Rightarrow> new_ad_detail\<lparr>ad_type := Some m\<rparr>);
          d2 = infer_ad_type d1
      in d2\<lparr>assets := extracted\<rparr>)"

text \<open>No block of the list is a substring or a superstring of an earlier block.\<close>

definition unrelated :: "string list \<Rightarrow> bool" where
  "unrelated ts = (\<forall>i j. i < j \<and> j < length ts
                     \<longrightarrow> \<not> str_in (ts ! j) (ts ! i) \<and> \<not> str_in (ts ! i) (ts ! j))"

section \<open>Asset identities (file 9)\<close>

text \<open>
  \<open>urllib.parse.urlparse\<close> as CPython 3.11 implements it, on strings of code points below
  256. It raises \<open>ValueError\<close> for a network location with an unmatched square bracket
  and for a bracketed host that the library's address check rejects. That check
  (\<open>_check_bracketed_host\<close>, absent from older versions) is the parameter \<open>ok\<close> of the
  model. The check of the network location under NFKC normalisation never fails on such
  strings and is left out.
\<close>

record parse_result =
  scheme :: string
  netloc :: string
  path :: string
  params :: string
  query :: string
  fragment :: string

definition c0_or_space :: "char \<Rightarrow> bool" where
  "c0_or_space c = ((of_char c :: nat) \<le> 32)"

definition unsafe_byte :: "char \<Rightarrow> bool" where
  "unsafe_byte c = (c = CHR 0x09 \<or> c = CHR 0x0D \<or> c = CHR 0x0A)"

definition ascii_alpha :: "char \<Rightarrow> bool" where
  "ascii_alpha c = (c \<in> set ''abcdefghijklmnopqrstuvwxyzABCDEFGHIJKLMNOPQRSTUVWXYZ'')"

definition scheme_char :: "char \<Rightarrow> bool" where
  "scheme_char c = (ascii_alpha c \<or> is_digit c \<or> c \<in> set ''+-.'')"

definition uses_params :: "string list" where
  "uses_params = ['''', ''ftp'', ''hdl'', ''prospero'', ''http'', ''imap'', ''https'', ''shttp'',
     ''rtsp'', ''rtsps'', ''rtspu'', ''sip'', ''sips'', ''mms'', ''sftp'', ''tel'']"

text \<open>\<open>s.split(c, 1)\<close> where \<open>c\<close> occurs in \<open>s\<close>: the parts before and after the first \<open>c\<close>.\<close>

definition split_once :: "char \<Rightarrow> string \<Rightarrow> string \<times> string" where
  "split_once c s = (takeWhile (\<lambda>x. x \<noteq> c) s, drop 1 (dropWhile (\<lambda>x. x \<noteq> c) s))"

definition split_scheme :: "string \<Rightarrow> string \<times> string" where
  "split_scheme url =
     (let pre = takeWhile (\<lambda>c. c \<noteq> CHR '':'') url
      in if CHR '':'' \<in> set url \<and> pre \<noteq> [] \<and> ascii_alpha (hd pre) \<and> list_all scheme_char pre
         then (py_lower pre, drop (Suc (length pre)) url)
         else ([], url))"

definition netloc_delim :: "char \<Rightarrow> bool" where
  "netloc_delim c = (c \<in> set ''/?#'')"

definition splitnetloc :: "string \<Rightarrow> string \<times> string" where
  "splitnetloc url =
     (takeWhile (\<lambda>c. \<not> netloc_delim c) (drop 2 url),
      dropWhile (\<lambda>c. \<not> netloc_delim c) (drop 2 url))"

definition bracketed_host :: "string \<Rightarrow> string" where
  "bracketed_host nl =
     takeWhile (\<lambda>c. c \<noteq> CHR '']'') (drop 1 (dropWhile (\<lambda>c. c \<noteq> CHR ''['') nl))"

definition netloc_error :: "(string \<Rightarrow> bool) \<Rightarrow> string \<Rightarrow> bool" where
  "netloc_error ok nl =
     (let l = CHR ''['' \<in> set nl; r = CHR '']'' \<in> set nl
      in (l \<and> \<not> r) \<or> (r \<and> \<not> l) \<or> (l \<and> r \<and> \<not> ok (bracketed_host nl)))"

text \<open>
  The stages of \<open>urlsplit\<close>: leading control characters and spaces are stripped and tabs
  and line breaks removed; then the scheme, the network location, the fragment and the
  query are split off in this order.
\<close>

definition clean_url :: "string \<Rightarrow> string" where
  "clean_url url = filter (\<lambda>c. \<not> unsafe_byte c) (dropWhile c0_or_space url)"

definition take_netloc :: "string \<Rightarrow> string \<times> string" where
  "take_netloc url = (if take 2 url = ''//'' then splitnetloc url else ([], url))"

definition split_fragment_query :: "string \<Rightarrow> string \<times> string \<times> string" where
  "split_fragment_query url =
     (let (url1, frag) = (if CHR ''#'' \<in> set url then split_once CHR ''#'' url else (url, []));
          (url2, qry) = (if CHR ''?'' \<in> set url1 then split_once CHR ''?'' url1 else (url1, []))
      in (url2, qry, frag))"

definition urlsplit :: "(string \<Rightarrow> bool) \<Rightarrow> string \<Rightarrow> py_error + parse_result" where
  "urlsplit ok url =
     (let (sch, url1) = split_scheme (clean_url url);
          (nl, url2) = take_netloc url1
      in if take 2 url1 = ''//'' \<and> netloc_error ok nl then Inl ValueError
         else
           let (url3, qry, frag) = split_fragment_query url2
           in Inr \<lparr>scheme = sch, netloc = nl, path = url3, params = [], query = qry,
                   fragment = frag\<rparr>)"

text \<open>\<open>_splitparams\<close>: the parameters start at the first \<open>;\<close> of the last path segment.\<close>

definition splitparams :: "string \<Rightarrow> string \<times> string" where
  "splitparams url =
     (if CHR ''/'' \<in> set url then
        (let k = length url - Suc (length (takeWhile (\<lambda>c. c \<noteq> CHR ''/'') (rev url)));
             tail = drop k url
         in if CHR '';'' \<notin> set tail then (url, [])
            else (let i = k + length (takeWhile (\<lambda>c. c \<noteq> CHR '';'') tail)
                  in (take i url, drop (Suc i) url)))
      else (let i = length (takeWhile (\<lambda>c. c \<noteq> CHR '';'') url)
            in (take i url, drop (Suc i) url)))"

definition urlparse :: "(string \<Rightarrow> bool) \<Rightarrow> string \<Rightarrow> py_error + parse_result" where
  "urlparse ok url =
     (case urlsplit ok url of
        Inl e \<Rightarrow> Inl e
      | Inr r \<Rightarrow>
          if scheme r \<in> set uses_params \<and> CHR '';'' \<in> set (path r)
          then (let (u, p) = splitparams (path r) in Inr (r\<lparr>path := u, params := p\<rparr>))
          else Inr r)"

text \<open>
  \<open>_normalize_url\<close>: the body of the \<open>try\<close>, and the function with its handler, which
  catches every exception and returns the argument.
\<close>

definition normalize_url :: "(string \<Rightarrow> bool) \<Rightarrow> string \<Rightarrow> string" where
  "normalize_url ok url =
     (case urlparse ok url of
        Inl e \<Rightarrow> url
      | Inr parsed \<Rightarrow> scheme parsed @ ''://'' @ netloc parsed @ path parsed)"

text \<open>
  The three substitutions of \<open>_get_video_base_path\<close>. A matcher gives the length of the
  match of its pattern at the start of a string, if there is one: every quantifier of
  the three patterns is followed by a character outside its class, so the greedy match is
  the only one. \<open>re_sub\<close> replaces the matches from left to right; its counter holds the
  characters of a match still to be skipped.
\<close>

definition match_lit :: "string \<Rightarrow> string \<Rightarrow> string option" where
  "match_lit lit s = (if prefix lit s then Some (drop (length lit) s) else None)"

definition match_digits :: "string \<Rightarrow> string option" where
  "match_digits s = (if takeWhile is_digit s = [] then None else Some (dropWhile is_digit s))"

definition match_profile :: "string \<Rightarrow> nat option" where
  "match_profile s =
     (case match_lit ''/mp4-'' s of None \<Rightarrow> None | Some r1 \<Rightarrow>
      case match_digits r1 of None \<Rightarrow> None | Some r2 \<Rightarrow>
      case match_lit ''p-'' r2 of None \<Rightarrow> None | Some r3 \<Rightarrow>
      case match_digits r3 of None \<Rightarrow> None | Some r4 \<Rightarrow>
      case match_lit ''fp-'' r4 of None \<Rightarrow> None | Some r5 \<Rightarrow>
        (let r6 = dropWhile (\<lambda>c. c \<noteq> CHR ''/'') r5
         in if takeWhile (\<lambda>c. c \<noteq> CHR ''/'') r5 = [] \<or> r6 = [] then None
            else Some (length s - length r6 + 1)))"

definition match_resolution_segment :: "string \<Rightarrow> nat option" where
  "match_resolution_segment s =
     (case match_lit ''/mp4-'' s of None \<Rightarrow> None | Some r1 \<Rightarrow>
      case match_digits r1 of None \<Rightarrow> None | Some r2 \<Rightarrow>
      case match_lit ''p/'' r2 of None \<Rightarrow> None | Some r3 \<Rightarrow>
        Some (length s - length r3))"

definition match_resolution_infix :: "string \<Rightarrow> nat option" where
  "match_resolution_infix s =
     (case match_lit ''-'' s of None \<Rightarrow> None | Some r1 \<Rightarrow>
      case match_digits r1 of None \<Rightarrow> None | Some r2 \<Rightarrow>
      case match_lit ''p-'' r2 of None \<Rightarrow> None | Some r3 \<Rightarrow>
        Some (length s - length r3))"

fun re_sub :: "(string \<Rightarrow> nat option) \<Rightarrow> string \<Rightarrow> nat \<Rightarrow> string \<Rightarrow> string" where
  "re_sub m repl k [] = []"
| "re_sub m repl k (c # cs) =
     (if 0 < k then re_sub m repl (k - 1) cs
      else (case m (c # cs) of
              None \<Rightarrow> c # re_sub m repl 0 cs
            | Some n \<Rightarrow> repl @ re_sub m repl (n - 1) cs))"

definition strip_quality :: "string \<Rightarrow> string" where
  "strip_quality p =
     re_sub match_resolution_infix ''-'' 0
       (re_sub match_resolution_segment ''/'' 0
          (re_sub match_profile ''/'' 0 p))"

definition get_video_base_path :: "(string \<Rightarrow> bool) \<Rightarrow> string \<Rightarrow> string" where
  "get_video_base_path ok url =
     (case urlparse ok url of
        Inl e \<Rightarrow> normalize_url ok url
      | Inr parsed \<Rightarrow> scheme parsed @ ''://'' @ netloc parsed @ strip_quality (path parsed))"

text \<open>
  The choice of the best rendition,
  \<open>max(video_urls, key=lambda x: max([int(m) for m in re.findall(r'(\d+)p', x)] + [0]))\<close>.
  \<open>re.findall\<close> scans the whole URL, query string included. \<open>int\<close> raises \<open>ValueError\<close>
  on a run of more than 4300 digits, and the exception leaves the key and \<open>max\<close>. \<open>max\<close>
  computes the key of every element once, from left to right, keeps the first of the
  elements with the largest key and raises \<open>ValueError\<close> on an empty list.
\<close>

fun findall_resolution :: "nat \<Rightarrow> string \<Rightarrow> string list" where
  "findall_resolution k [] = []"
| "findall_resolution k (c # cs) =
     (if 0 < k then findall_resolution (k - 1) cs
      else (let d = takeWhile is_digit (c # cs)
            in if d \<noteq> [] \<and> take 1 (dropWhile is_digit (c # cs)) = ''p''
               then d # findall_resolution (length d) cs
               else findall_resolution 0 cs))"

fun ints :: "string list \<Rightarrow> py_error + int list" where
  "ints [] = Inr []"
| "ints (m # ms) =
     (case py_int m of
        Inl e \<Rightarrow> Inl e
      | Inr n \<Rightarrow> (case ints ms of Inl e \<Rightarrow> Inl e | Inr ns \<Rightarrow> Inr (n # ns)))"

definition quality :: "string \<Rightarrow> py_error + int" where
  "quality x =
     (case ints (findall_resolution 0 x) of
        Inl e \<Rightarrow> Inl e
      | Inr ns \<Rightarrow> Inr (foldr max ns 0))"

fun max_by :: "('a \<Rightarrow> py_error + int) \<Rightarrow> 'a \<Rightarrow> int \<Rightarrow> 'a list \<Rightarrow> py_error + 'a" where
  "max_by key best best_key [] = Inr best"
| "max_by key best best_key (x # xs) =
     (case key x of
        Inl e \<Rightarrow> Inl e
      | Inr k \<Rightarrow> if best_key < k then max_by key x k xs else max_by key best best_key xs)"

definition best_url :: "string list \<Rightarrow> py_error + string" where
  "best_url video_urls =
     (case video_urls of
        [] \<Rightarrow> Inl ValueError
      | u # us \<Rightarrow> (case quality u of Inl e \<Rightarrow> Inl e | Inr k \<Rightarrow> max_by quality u k us))"

section \<open>The deduplicating asset fetcher (file 9)\<close>

text \<open>
  What the fetcher takes from outside: the library's check of a bracketed host,
  \<open>hashlib.md5(url.encode()).hexdigest()\<close>, and \<open>_download_asset\<close>, which tells whether the
  download of a URL to a path succeeded; its first argument is the number of downloads
  attempted before, so that the network may answer differently from attempt to attempt.
\<close>

record world =
  host_ok :: "string \<Rightarrow> bool"
  md5_hex :: "string \<Rightarrow> string"
  download_asset :: "nat \<Rightarrow> string \<Rightarrow> string \<Rightarrow> bool"

text \<open>\<open>str(n)\<close> for a natural number, and \<open>os.path.join\<close> on POSIX paths.\<close>

function show_nat :: "nat \<Rightarrow> string" where
  "show_nat n = (if n < 10 then [char_of (48 + n)]
                 else show_nat (n div 10) @ [char_of (48 + n mod 10)])"
  by pat_completeness auto

termination
  by (relation "measure id") auto

fun path_join :: "string \<Rightarrow> string list \<Rightarrow> string" where
  "path_join a [] = a"
| "path_join a (b # bs) =
     path_join (if prefix ''/'' b then b
                else if a = [] \<or> last a = CHR ''/'' then a @ b
                else a @ ''/'' @ b) bs"

text \<open>\<open>_get_file_extension\<close> with no content type, and \<open>_generate_filename\<close>. Both call
  \<open>urlparse\<close> outside any \<open>try\<close>, so its exception leaves the function.\<close>

definition get_file_extension :: "(string \<Rightarrow> bool) \<Rightarrow> string \<Rightarrow> py_error + string" where
  "get_file_extension ok url =
     (case urlparse ok url of
        Inl e \<Rightarrow> Inl e
      | Inr parsed \<Rightarrow>
          (let p = py_lower (path parsed); u = py_lower url
           in Inr (if str_in ''.jpg'' p \<or> str_in ''.jpeg'' p then ''.jpg''
                   else if str_in ''.png'' p then ''.png''
                   else if str_in ''.gif'' p then ''.gif''
                   else if str_in ''.webp'' p then ''.webp''
                   else if str_in ''.mp4'' p then ''.mp4''
                   else if str_in ''.webm'' p then ''.webm''
                   else if str_in ''.mov'' p then ''.mov''
                   else if str_in ''video'' u \<or> str_in ''playlist'' u then ''.mp4''
                   else if str_in ''logo'' u \<or> str_in ''image'' u then ''.jpg''
                   else ''.bin'')))"

definition name_char :: "char \<Rightarrow> bool" where
  "name_char c = (ascii_alpha c \<or> is_digit c \<or> c = CHR ''_'' \<or> c = CHR ''-'')"

definition generate_filename ::
  "world \<Rightarrow> string \<Rightarrow> string \<Rightarrow> string \<Rightarrow> nat \<Rightarrow> py_error + string" where
  "generate_filename w url asset_type ad_id index =
     (case urlparse (host_ok w) url of
        Inl e \<Rightarrow> Inl e
      | Inr parsed \<Rightarrow>
          (let path_parts = filter (\<lambda>p. p \<noteq> [] \<and> p \<notin> set [''dms'', ''image'', ''v2'', ''playlist'', ''vid''])
                               (py_split CHR ''/'' (path parsed));
               base_name = (if path_parts \<noteq> []
                            then take 50 (map (\<lambda>c. if name_char c then c else CHR ''_'')
                                              (last path_parts))
                            else asset_type @ ''_'' @ take 8 (md5_hex w url))
           in case get_file_extension (host_ok w) url of
                Inl e \<Rightarrow> Inl e
              | Inr ext \<Rightarrow> Inr (ad_id @ ''_'' @ base_name @ ''_'' @ show_nat index @ ext)))"

text \<open>
  \<open>seen_assets\<close>: the four dictionaries under the keys \<open>logos\<close>, \<open>images\<close>, \<open>videos\<close> and
  \<open>posters\<close>. \<open>cell\<close> reads the entry of an identity in the dictionary under a key (no
  entry when the key is none of the four); \<open>register\<close> writes one.
\<close>

record seen_assets =
  seen_logos :: "string \<rightharpoonup> string"
  seen_images :: "string \<rightharpoonup> string"
  seen_videos :: "string \<rightharpoonup> string"
  seen_posters :: "string \<rightharpoonup> string"

definition cell :: "seen_assets \<Rightarrow> string \<Rightarrow> string \<Rightarrow> string option" where
  "cell seen key ident =
     (if key = ''logos'' then seen_logos seen ident
      else if key = ''images'' then seen_images seen ident
      else if key = ''videos'' then seen_videos seen ident
      else if key = ''posters'' then seen_posters seen ident
      else None)"

definition register :: "seen_assets \<Rightarrow> string \<Rightarrow> string \<Rightarrow> string \<Rightarrow> seen_assets" where
  "register seen key ident local_path =
     (if key = ''logos'' then seen\<lparr>seen_logos := (seen_logos seen)(ident \<mapsto> local_path)\<rparr>
      else if key = ''images'' then seen\<lparr>seen_images := (seen_images seen)(ident \<mapsto> local_path)\<rparr>
      else if key = ''videos'' then seen\<lparr>seen_videos := (seen_videos seen)(ident \<mapsto> local_path)\<rparr>
      else if key = ''posters'' then seen\<lparr>seen_posters := (seen_posters seen)(ident \<mapsto> local_path)\<rparr>
      else seen)"

text \<open>\<open>_is_duplicate_asset\<close>.\<close>

definition is_duplicate_asset ::
  "(string \<Rightarrow> bool) \<Rightarrow> seen_assets \<Rightarrow> string \<Rightarrow> string \<Rightarrow> bool \<times> string option" where
  "is_duplicate_asset ok seen url asset_type =
     (if asset_type = ''video'' then
        (case cell seen ''videos'' (get_video_base_path ok url) of
           Some p \<Rightarrow> (True, Some p)
         | None \<Rightarrow> (False, None))
      else
        (case cell seen (asset_type @ ''s'') (normalize_url ok url) of
           Some p \<Rightarrow> (True, Some p)
         | None \<Rightarrow> (False, None)))"

text \<open>
  The state of the fetcher: the cache, and the downloads attempted so far with their
  outcome (URL, path, success), oldest first. The list of attempts is not in the source.
\<close>

record fetcher_state =
  cache :: seen_assets
  attempts :: "(string \<times> string \<times> bool) list"

definition try_download :: "world \<Rightarrow> string \<Rightarrow> string \<Rightarrow> fetcher_state \<Rightarrow> bool \<times> fetcher_state" where
  "try_download w url output_path st =
     (let success = download_asset w (length (attempts st)) url output_path
      in (success, st\<lparr>attempts := attempts st @ [(url, output_path, success)]\<rparr>))"

text \<open>The logo.\<close>

definition download_logo ::
  "world \<Rightarrow> string \<Rightarrow> string \<Rightarrow> string option \<Rightarrow> fetcher_state
     \<Rightarrow> (py_error + string option) \<times> fetcher_state" where
  "download_logo w ad_id ad_dir logo_url st =
     (if \<not> truthy logo_url then (Inr None, st)
      else
        let url = the logo_url;
            (is_dup, existing_path) = is_duplicate_asset (host_ok w) (cache st) url ''logo''
        in if is_dup \<and> truthy existing_path then (Inr existing_path, st)
           else
             (case generate_filename w url ''logo'' ad_id 0 of
                Inl e \<Rightarrow> (Inl e, st)
              | Inr logo_filename \<Rightarrow>
                  let logo_path = path_join ad_dir [''logo'', logo_filename];
                      (success, st1) = try_download w url logo_path st
                  in if success
                     then (Inr (Some logo_path),
                           st1\<lparr>cache := register (cache st1) ''logos''
                                          (normalize_url (host_ok w) url) logo_path\<rparr>)
                     else (Inr None, st1)))"

text \<open>
  The loop over the images and the loop over the posters, which differ only in the
  literals \<open>image\<close> and \<open>poster\<close> (the asset type; with an \<open>s\<close> the directory and the key of
  the cache). \<open>i\<close> is the index of \<open>enumerate\<close>, \<open>acc\<close> the list built so far.
\<close>

fun download_listed ::
  "world \<Rightarrow> string \<Rightarrow> string \<Rightarrow> string \<Rightarrow> nat \<Rightarrow> string list \<Rightarrow> fetcher_state \<times> string list
     \<Rightarrow> (py_error + string list) \<times> fetcher_state" where
  "download_listed w kind ad_id ad_dir i [] (st, acc) = (Inr acc, st)"
| "download_listed w kind ad_id ad_dir i (url # urls) (st, acc) =
     (let (is_dup, existing_path) = is_duplicate_asset (host_ok w) (cache st) url kind
      in if is_dup \<and> truthy existing_path
         then download_listed w kind ad_id ad_dir (Suc i) urls (st, acc @ [the existing_path])
         else
           (case generate_filename w url kind ad_id i of
              Inl e \<Rightarrow> (Inl e, st)
            | Inr filename \<Rightarrow>
                let local_path = path_join ad_dir [kind @ ''s'', filename];
                    (success, st1) = try_download w url local_path st
                in if success
                   then download_listed w kind ad_id ad_dir (Suc i) urls
                          (st1\<lparr>cache := register (cache st1) (kind @ ''s'')
                                          (normalize_url (host_ok w) url) local_path\<rparr>,
                           acc @ [local_path])
                   else download_listed w kind ad_id ad_dir (Suc i) urls (st1, acc)))"

text \<open>
  The videos: \<open>video_groups\<close> is the dictionary from base path to the URLs with that base
  path, in insertion order; one download at most is attempted per group.
\<close>

definition add_to_groups ::
  "(string \<Rightarrow> bool) \<Rightarrow> (string \<times> string list) list \<Rightarrow> string \<Rightarrow> (string \<times> string list) list" where
  "add_to_groups ok groups video_url =
     (let base_path = get_video_base_path ok video_url
      in if base_path \<notin> fst ` set groups then groups @ [(base_path, [video_url])]
         else map (\<lambda>(k, us). if k = base_path then (k, us @ [video_url]) else (k, us)) groups)"

definition video_groups :: "(string \<Rightarrow> bool) \<Rightarrow> string list \<Rightarrow> (string \<times> string list) list" where
  "video_groups ok urls = foldl (add_to_groups ok) [] urls"

fun download_videos ::
  "world \<Rightarrow> string \<Rightarrow> string \<Rightarrow> (string \<times> string list) list \<Rightarrow> fetcher_state \<times> string list
     \<Rightarrow> (py_error + string list) \<times> fetcher_state" where
  "download_videos w ad_id ad_dir [] (st, acc) = (Inr acc, st)"
| "download_videos w ad_id ad_dir ((base_path, video_urls) # groups) (st, acc) =
     (case index0 video_urls of
        Inl e \<Rightarrow> (Inl e, st)
      | Inr first \<Rightarrow>
          let (is_dup, existing_path) = is_duplicate_asset (host_ok w) (cache st) first ''video''
          in if is_dup \<and> truthy existing_path
             then download_videos w ad_id ad_dir groups (st, acc @ [the existing_path])
             else
               (case best_url video_urls of
                  Inl e \<Rightarrow> (Inl e, st)
                | Inr best \<Rightarrow>
                    (case generate_filename w best ''video'' ad_id (length acc + 1) of
                       Inl e \<Rightarrow> (Inl e, st)
                     | Inr video_filename \<Rightarrow>
                         let video_path = path_join ad_dir [''videos'', video_filename];
                             (success, st1) = try_download w best video_path st
                         in if success
                            then download_videos w ad_id ad_dir groups
                                   (st1\<lparr>cache := register (cache st1) ''videos'' base_path video_path\<rparr>,
                                    acc @ [video_path])
                            else download_videos w ad_id ad_dir groups (st1, acc))))"

text \<open>\<open>_download_ad_assets_with_dedup\<close>: the result, and the function; \<open>bundle\<close> is its
  argument \<open>assets\<close>.\<close>

record downloaded = asset_lists +
  logo :: "string option"

definition download_ad_assets_with_dedup ::
  "world \<Rightarrow> string \<Rightarrow> string option \<Rightarrow> asset_lists \<Rightarrow> string \<Rightarrow> fetcher_state
     \<Rightarrow> (py_error + downloaded) \<times> fetcher_state" where
  "download_ad_assets_with_dedup w ad_id logo_url bundle output_dir st =
     (let ad_dir = path_join output_dir [ad_id]
      in case download_logo w ad_id ad_dir logo_url st of
           (Inl e, st1) \<Rightarrow> (Inl e, st1)
         | (Inr lg, st1) \<Rightarrow>
      (case download_listed w ''image'' ad_id ad_dir 1 (images bundle) (st1, []) of
           (Inl e, st2) \<Rightarrow> (Inl e, st2)
         | (Inr imgs, st2) \<Rightarrow>
      (case download_videos w ad_id ad_dir (video_groups (host_ok w) (videos bundle)) (st2, []) of
           (Inl e, st3) \<Rightarrow> (Inl e, st3)
         | (Inr vids, st3) \<Rightarrow>
      (case download_listed w ''poster'' ad_id ad_dir 1 (posters bundle) (st3, []) of
           (Inl e, st4) \<Rightarrow> (Inl e, st4)
         | (Inr psts, st4) \<Rightarrow>
             (Inr \<lparr>images = imgs, videos = vids, posters = psts, logo = lg\<rparr>, st4)))))"

definition empty_cache :: seen_assets where
  "empty_cache = \<lparr>seen_logos = Map.empty, seen_images = Map.empty, seen_videos = Map.empty,
                  seen_posters = Map.empty\<rparr>"

definition fresh_state :: fetcher_state where
  "fresh_state = \<lparr>cache = empty_cache, attempts = []\<rparr>"

text \<open>
  A world in which every bracketed host passes the library's check and every download
  succeeds, and one in which the first download attempted fails and the later ones
  succeed.
\<close>

definition obliging_world :: world where
  "obliging_world =
     \<lparr>host_ok = (\<lambda>h. True), md5_hex = (\<lambda>u. ''d41d8cd98f00b204e9800998ecf8427e''),
      download_asset = (\<lambda>n u p. True)\<rparr>"

definition flaky_world :: world where
  "flaky_world =
     \<lparr>host_ok = (\<lambda>h. True), md5_hex = (\<lambda>u. ''d41d8cd98f00b204e9800998ecf8427e''),
      download_asset = (\<lambda>n u p. n \<noteq> 0)\<rparr>"

text \<open>The assets of two records: one image, and one image whose URL does not parse.\<close>

definition one_image :: asset_lists where
  "one_image = \<lparr>images = [''https://media.licdn.com/dms/image/v2/D4E/a.jpg?e=1''],
                 videos = [], posters = []\<rparr>"

definition bad_image :: asset_lists where
  "bad_image = \<lparr>images = [''https://[media/a.jpg''], videos = [], posters = []\<rparr>"



text \<open>
  An encoding-profile segment of a path, with its two slashes: \<open>/mp4-360p-30fp-crf28/\<close> is
  \<open>profile_segment ''360'' ''30'' ''crf28''\<close>.
\<close>

definition profile_segment :: "string \<Rightarrow> string \<Rightarrow> string \<Rightarrow> string" where
  "profile_segment res fps tail = ''/mp4-'' @ res @ ''p-'' @ fps @ ''fp-'' @ tail @ ''/''"

definition valid_profile :: "string \<Rightarrow> string \<Rightarrow> string \<Rightarrow> bool" where
  "valid_profile res fps tail =
     (res \<noteq> [] \<and> list_all is_digit res \<and> fps \<noteq> [] \<and> list_all is_digit fps
      \<and> tail \<noteq> [] \<and> CHR ''/'' \<notin> set tail)"

text \<open>The videos of a record: two renditions of one video, at 360p and at 720p.\<close>

definition two_renditions :: asset_lists where
  "two_renditions = \<lparr>images = [], videos = [''https://dms.licdn.com/playlist/vid/v2/A1/mp4-360p-30fp-crf28/B2/0/17?e=1&t=x'',
     ''https://dms.licdn.com/playlist/vid/v2/A1/mp4-720p-25fp-crf23/B2/0/17?e=2''], posters = []\<rparr>"

text \<open>
  The key of the cache and the identity under which \<open>_is_duplicate_asset\<close> looks a URL of
  an asset type up; a candidate is a hit when its entry is there and not empty.
\<close>

definition slot :: "string \<Rightarrow> string" where
  "slot kind = (if kind = ''video'' then ''videos'' else kind @ ''s'')"

definition ident :: "(string \<Rightarrow> bool) \<Rightarrow> string \<Rightarrow> string \<Rightarrow> string" where
  "ident ok kind url =
     (if kind = ''video'' then get_video_base_path ok url else normalize_url ok url)"

definition hit :: "(string \<Rightarrow> bool) \<Rightarrow> seen_assets \<Rightarrow> string \<Rightarrow> string \<Rightarrow> bool" where
  "hit ok c kind url = truthy (cell c (slot kind) (ident ok kind url))"

text \<open>The downloads attempted between two states, and a cache that keeps the non-empty
  entries of another.\<close>

definition new_attempts :: "fetcher_state \<Rightarrow> fetcher_state \<Rightarrow> (string \<times> string \<times> bool) list" where
  "new_attempts st st' = drop (length (attempts st)) (attempts st')"

definition extends :: "fetcher_state \<Rightarrow> fetcher_state \<Rightarrow> bool" where
  "extends st st' = (\<exists>new. attempts st' = attempts st @ new)"

definition keeps :: "seen_assets \<Rightarrow> seen_assets \<Rightarrow> bool" where
  "keeps c c' = (\<forall>key n. truthy (cell c key n) \<longrightarrow> cell c' key n = cell c key n)"

definition cache_key :: "string \<Rightarrow> bool" where
  "cache_key key = (key \<in> set [''logos'', ''images'', ''videos'', ''posters''])"

text \<open>Every group of videos is non-empty and holds URLs with the base path of the group.\<close>

definition well_grouped :: "(string \<Rightarrow> bool) \<Rightarrow> (string \<times> string list) list \<Rightarrow> bool" where
  "well_grouped ok groups =
     (\<forall>g \<in> set groups. snd g \<noteq> [] \<and> (\<forall>u \<in> set (snd g). get_video_base_path ok u = fst g))"

text \<open>
  Every candidate of a record (its logo, images, videos and posters) is a hit of a
  cache; and the local paths the cache holds for them.
\<close>

definition all_cached :: "world \<Rightarrow> seen_assets \<Rightarrow> string option \<Rightarrow> asset_lists \<Rightarrow> bool" where
  "all_cached w c logo_url bundle =
     ((truthy logo_url \<longrightarrow> hit (host_ok w) c ''logo'' (the logo_url))
      \<and> (\<forall>u \<in> set (images bundle). hit (host_ok w) c ''image'' u)
      \<and> (\<forall>u \<in> set (videos bundle). hit (host_ok w) c ''video'' u)
      \<and> (\<forall>u \<in> set (posters bundle). hit (host_ok w) c ''poster'' u))"

definition cached_paths :: "world \<Rightarrow> seen_assets \<Rightarrow> string option \<Rightarrow> asset_lists \<Rightarrow> downloaded" where
  "cached_paths w c logo_url bundle =
     \<lparr>images = map (\<lambda>u. the (cell c ''images'' (normalize_url (host_ok w) u))) (images bundle),
      videos = map (\<lambda>g. the (cell c ''videos'' (fst g)))
                 (video_groups (host_ok w) (videos bundle)),
      posters = map (\<lambda>u. the (cell c ''posters'' (normalize_url (host_ok w) u))) (posters bundle),
      logo = (if truthy logo_url
              then cell c ''logos'' (normalize_url (host_ok w) (the logo_url)) else None)\<rparr>"

text \<open>
  A record with a logo, one image listed under two query strings, two renditions of one
  video and a poster; and the state of the fetcher after materializing it once where every
  download succeeds, and after materializing one image where the download fails.
\<close>

definition sample_logo :: "string option" where
  "sample_logo = Some ''https://media.licdn.com/dms/image/v2/C4E/logo.png?e=1''"

definition repeated_assets :: asset_lists where
  "repeated_assets =
     \<lparr>images = [''https://media.licdn.com/dms/image/v2/D4E/a.jpg?e=1'',
                ''https://media.licdn.com/dms/image/v2/D4E/a.jpg?e=2''],
      videos = [''https://dms.licdn.com/playlist/vid/v2/A1/mp4-360p-30fp-crf28/B2/0/17?e=1&t=x'',
                ''https://dms.licdn.com/playlist/vid/v2/A1/mp4-720p-25fp-crf23/B2/0/17?e=2''],
      posters = [''https://media.licdn.com/dms/image/v2/D4E/p.jpg'']\<rparr>"

definition sample_paths :: downloaded where
  "sample_paths =
     \<lparr>images = [''out/7/images/7_a_jpg_1.jpg'', ''out/7/images/7_a_jpg_1.jpg''],
      videos = [''out/7/videos/7_17_1.mp4''],
      posters = [''out/7/posters/7_p_jpg_1.jpg''],
      logo = Some ''out/7/logo/7_logo_png_0.png''\<rparr>"

definition after_first :: fetcher_state where
  "after_first = snd (download_ad_assets_with_dedup obliging_world ''7'' sample_logo
                        repeated_assets ''out'' fresh_state)"

definition after_failure :: fetcher_state where
  "after_failure = snd (download_ad_assets_with_dedup flaky_world ''7'' None one_image ''out''
                          fresh_state)"

text \<open>
  \<open>_deduplicate_assets\<close>: of every list the URLs whose identity has not been seen earlier
  in the list, in order; the identity of a video is its base path, that of an image or
  poster its normalized URL.
\<close>

fun dedup_by :: "(string \<Rightarrow> string) \<Rightarrow> string set \<Rightarrow> string list \<Rightarrow> string list" where
  "dedup_by key_of seen_urls [] = []"
| "dedup_by key_of seen_urls (url # urls) =
     (if key_of url \<notin> seen_urls
      then url # dedup_by key_of (insert (key_of url) seen_urls) urls
      else dedup_by key_of seen_urls urls)"

definition deduplicate_assets :: "(string \<Rightarrow> bool) \<Rightarrow> asset_lists \<Rightarrow> asset_lists" where
  "deduplicate_assets ok bundle =
     \<lparr>images = dedup_by (normalize_url ok) {} (images bundle),
      videos = dedup_by (get_video_base_path ok) {} (videos bundle),
      posters = dedup_by (normalize_url ok) {} (posters bundle)\<rparr>"

text \<open>
  The way of the assets of a detail page through \<open>scrape_complete\<close>: the lists collected
  by \<open>_extract_assets_from_html\<close> are returned through \<open>_deduplicate_assets\<close>, stored in the
  record by \<open>scrape_ad_detail\<close> and handed to \<open>_download_ad_assets_with_dedup\<close>.
\<close>

definition download_extracted ::
  "world \<Rightarrow> string \<Rightarrow> string option \<Rightarrow> asset_lists \<Rightarrow> string \<Rightarrow> fetcher_state
     \<Rightarrow> (py_error + downloaded) \<times> fetcher_state" where
  "download_extracted w ad_id logo_url found output_dir st =
     download_ad_assets_with_dedup w ad_id logo_url (deduplicate_assets (host_ok w) found)
       output_dir st"



section \<open>Properties of the token classification\<close>

lemma py_split_nonempty: "py_split sep s \<noteq> []"
  by (induction s) (auto split: list.splits)

lemma py_split_first: "index0 (py_split sep s) = Inr (takeWhile (\<lambda>c. c \<noteq> sep) s)"
proof (induction s)
  case Nil
  show ?case by (simp add: index0_def)
next
  case (Cons c cs)
  then show ?case
    by (cases "py_split sep cs") (auto simp: index0_def py_split_nonempty)
qed

lemma py_int_error: "py_int s = Inl e \<Longrightarrow> e = ValueError"
  by (auto simp: py_int_def Let_def split: option.splits prod.splits if_splits)

lemma offset_branch_cases:
  "offset_branch t =
     (case py_int (takeWhile (\<lambda>c. c \<noteq> CHR ''#'') t) of
        Inl e \<Rightarrow> Inl ValueError
      | Inr n \<Rightarrow> Inr (''offset'', IntValue n))"
  by (auto simp: offset_branch_def py_split_first split: sum.splits dest: py_int_error)

lemma normalize_pagination_token_total:
  "\<exists>m v. normalize_pagination_token token = Inr (m, v)"
  by (auto simp: normalize_pagination_token_def Let_def offset_branch_cases
      split: sum.splits py_error.splits)

text \<open>
  C10. The classification never raises. A missing or empty token gives API mode with no
  value; a token with a \<open>#\<close> whose part before the first \<open>#\<close> is accepted by \<open>int\<close> gives
  offset mode with that integer; a token with a \<open>#\<close> whose part before the first \<open>#\<close>
  is rejected by \<open>int\<close> gives API mode with the whole token.
\<close>

theorem C10_token_classification:
  "(\<exists>m v. normalize_pagination_token token = Inr (m, v))
   \<and> normalize_pagination_token None = Inr (''api'', NoValue)
   \<and> normalize_pagination_token (Some []) = Inr (''api'', NoValue)
   \<and> (CHR ''#'' \<in> set t \<longrightarrow> py_int (takeWhile (\<lambda>c. c \<noteq> CHR ''#'') t) = Inr n
        \<longrightarrow> normalize_pagination_token (Some t) = Inr (''offset'', IntValue n))
   \<and> (CHR ''#'' \<in> set t \<longrightarrow> py_int (takeWhile (\<lambda>c. c \<noteq> CHR ''#'') t) = Inl e
        \<longrightarrow> normalize_pagination_token (Some t) = Inr (''api'', StrValue t))"
proof -
  have nonempty: "CHR ''#'' \<in> set t \<Longrightarrow> truthy (Some t)"
    by (auto simp: truthy_def)
  have off: "CHR ''#'' \<in> set t \<Longrightarrow> py_int (takeWhile (\<lambda>c. c \<noteq> CHR ''#'') t) = Inr n
      \<Longrightarrow> normalize_pagination_token (Some t) = Inr (''offset'', IntValue n)"
    using nonempty by (simp add: normalize_pagination_token_def offset_branch_cases)
  have api: "CHR ''#'' \<in> set t \<Longrightarrow> py_int (takeWhile (\<lambda>c. c \<noteq> CHR ''#'') t) = Inl e
      \<Longrightarrow> normalize_pagination_token (Some t) = Inr (''api'', StrValue t)"
    using nonempty by (simp add: normalize_pagination_token_def offset_branch_cases)
  have none: "normalize_pagination_token None = Inr (''api'', NoValue)"
    by (simp add: normalize_pagination_token_def truthy_def)
  have empty: "normalize_pagination_token (Some []) = Inr (''api'', NoValue)"
    by (simp add: normalize_pagination_token_def truthy_def)
  from normalize_pagination_token_total off api none empty show ?thesis
    by blast
qed

theorem C10_token_classification_witness:
  "normalize_pagination_token (Some ''24#12'') = Inr (''offset'', IntValue 24)
   \<and> normalize_pagination_token (Some '' -1_0 #x'') = Inr (''offset'', IntValue (- 10))
   \<and> normalize_pagination_token (Some ''abc#12'') = Inr (''api'', StrValue ''abc#12'')
   \<and> normalize_pagination_token (Some ''#'') = Inr (''api'', StrValue ''#'')
   \<and> normalize_pagination_token (Some (CHR 0x1F # ''5#1''))
       = Inr (''api'', StrValue (CHR 0x1F # ''5#1''))"
proof -
  have p1: "py_int (takeWhile (\<lambda>c. c \<noteq> CHR ''#'') ''24#12'') = Inr 24"
    by code_simp
  have p2: "py_int (takeWhile (\<lambda>c. c \<noteq> CHR ''#'') ''abc#12'') = Inl ValueError"
    by code_simp
  have p3: "py_int (takeWhile (\<lambda>c. c \<noteq> CHR ''#'') ''#'') = Inl ValueError"
    by code_simp
  have p4: "py_int (takeWhile (\<lambda>c. c \<noteq> CHR ''#'') (CHR 0x1F # ''5#1'')) = Inl ValueError"
    by code_simp
  have p5: "py_int (takeWhile (\<lambda>c. c \<noteq> CHR ''#'') '' -1_0 #x'') = Inr (- 10)"
    by code_simp
  show ?thesis
    using C10_token_classification [of "Some ''24#12''" "''24#12''" 24 ValueError]
      C10_token_classification [of None "''abc#12''" 0 ValueError]
      C10_token_classification [of None "''#''" 0 ValueError]
      C10_token_classification [of None "CHR 0x1F # ''5#1''" 0 ValueError]
      C10_token_classification [of None "'' -1_0 #x''" "- 10" ValueError]
      p1 p2 p3 p4 p5
    by simp
qed

section \<open>Properties of the pagination walker\<close>

lemma set_first_seen [simp]: "set (first_seen xs) = set xs"
  by (induction xs) auto

lemma distinct_first_seen [simp]: "distinct (first_seen xs)"
  by (induction xs) auto

lemma first_seen_distinct: "distinct xs \<Longrightarrow> first_seen xs = xs"
  by (induction xs) (auto simp: filter_id_conv)

lemma first_seen_append:
  "first_seen (xs @ ys) = first_seen xs @ filter (\<lambda>y. y \<notin> set xs) (first_seen ys)"
  by (induction xs) (auto simp: conj_commute)


lemma first_seen_idem_append:
  "first_seen (first_seen xs @ ys) = first_seen (xs @ ys)"
  by (simp add: first_seen_append first_seen_distinct)



lemma add_ad_ids_take:
  "distinct acc \<Longrightarrow> int (length acc) \<le> m \<Longrightarrow>
     add_ad_ids m acc ids = take (nat m) (first_seen (acc @ ids))"
proof (induction ids arbitrary: acc)
  case Nil
  then show ?case by (simp add: first_seen_distinct)
next
  case (Cons a ids)
  show ?case
  proof (cases "m \<le> int (length acc)")
    case True
    with Cons.prems have "nat m = length acc" by simp
    then show ?thesis using True Cons.prems
      by (simp add: first_seen_append first_seen_distinct)
  next
    case False
    let ?acc = "if a \<notin> set acc then acc @ [a] else acc"
    have d: "distinct ?acc" and l: "int (length ?acc) \<le> m"
      using Cons.prems False by auto
    have "first_seen (?acc @ ids) = first_seen (acc @ a # ids)"
      using Cons.prems(1)
      by (auto simp: first_seen_append first_seen_distinct intro!: filter_cong)
    then show ?thesis using Cons.IH [OF d l] False by simp
  qed
qed

lemma walk_loop_rule:
  assumes "I st"
    and "\<And>s x s'. I s \<Longrightarrow> int (length (all_ad_ids s)) < m \<Longrightarrow> walk_body env m s = (x, s')
                 \<Longrightarrow> (if x = Continue then I s' else Q s')"
    and "\<And>s. I s \<Longrightarrow> \<not> int (length (all_ad_ids s)) < m \<Longrightarrow> Q s"
  shows "Q (snd (walk_loop env m st))"
  using assms
proof (induction env m st rule: walk_loop.induct)
  case (1 env m st)
  note inv = "1.prems"(1) and step = "1.prems"(2) and stop = "1.prems"(3)
  show ?case
  proof (cases "int (length (all_ad_ids st)) < m")
    case False
    then show ?thesis using stop [OF inv False] by simp
  next
    case True
    obtain x s' where b: "walk_body env m st = (x, s')" by (cases "walk_body env m st")
    from step [OF inv True b] have s: "if x = Continue then I s' else Q s'" .
    show ?thesis
    proof (cases x)
      case Continue
      with s have "I s'" by simp
      from "1.IH" [OF True b [symmetric] Continue this step stop] True b Continue
      show ?thesis by simp
    next
      case Break
      with s True b show ?thesis by simp
    next
      case (Raised e)
      with s True b show ?thesis by simp
    qed
  qed
qed

lemma process_page_fields:
  "process_page m st d = (x, st') \<Longrightarrow>
     page_log st' = page_log st @ [extract_ad_ids_from_html (html d)]
     \<and> all_ad_ids st' = add_ad_ids m (all_ad_ids st) (extract_ad_ids_from_html (html d))
     \<and> fetch_log st' = fetch_log st \<and> seen_tokens st' = seen_tokens st"
  by (auto simp: process_page_def Let_def split: if_splits)

lemma walk_body_cases:
  assumes "walk_body env m st = (x, st')"
  obtains
    (seen) "truthy (pagination_token st)" "the (pagination_token st) \<in> seen_tokens st"
      "x = Break" "st' = st"
  | (failed) req where "\<not> (truthy (pagination_token st) \<and> the (pagination_token st) \<in> seen_tokens st)"
      "normalize_pagination_token (pagination_token st) = Inr req"
      "\<forall>d. fetch_page env (length (fetch_log st)) req = Some d \<longrightarrow> html d = []"
      "x = Break"
      "st' = st\<lparr>seen_tokens := (if truthy (pagination_token st)
                    then insert (the (pagination_token st)) (seen_tokens st) else seen_tokens st),
                  fetch_log := fetch_log st @ [(pagination_token st, req)]\<rparr>"
  | (page) req d where "\<not> (truthy (pagination_token st) \<and> the (pagination_token st) \<in> seen_tokens st)"
      "normalize_pagination_token (pagination_token st) = Inr req"
      "fetch_page env (length (fetch_log st)) req = Some d" "html d \<noteq> []"
      "process_page m (st\<lparr>seen_tokens := (if truthy (pagination_token st)
                    then insert (the (pagination_token st)) (seen_tokens st) else seen_tokens st),
                  fetch_log := fetch_log st @ [(pagination_token st, req)]\<rparr>) d = (x, st')"
proof -
  obtain mo v where n: "normalize_pagination_token (pagination_token st) = Inr (mo, v)"
    using normalize_pagination_token_total by blast
  show ?thesis
  proof (cases "truthy (pagination_token st) \<and> the (pagination_token st) \<in> seen_tokens st")
    case True
    with assms have "x = Break" "st' = st" by (auto simp: walk_body_def Let_def)
    with True seen show ?thesis by blast
  next
    case False
    show ?thesis
    proof (cases "fetch_page env (length (fetch_log st)) (mo, v)")
      case None
      with assms False n show ?thesis
        by (intro failed [of "(mo, v)"]) (auto simp: walk_body_def Let_def split: if_splits)
    next
      case (Some d)
      show ?thesis
      proof (cases "html d = []")
        case True
        with assms False n Some show ?thesis
          by (intro failed [of "(mo, v)"]) (auto simp: walk_body_def Let_def split: if_splits)
      next
        case nonempty: False
        with assms False n Some show ?thesis
          by (intro page [of "(mo, v)" d]) (auto simp: walk_body_def Let_def split: if_splits)
      qed
    qed
  qed
qed


lemma add_ad_ids_invariant:
  assumes "ids_invariant m s" "int (length (all_ad_ids s)) < m"
  shows "add_ad_ids m (all_ad_ids s) ids = take (nat m) (first_seen (concat (page_log s @ [ids])))"
proof -
  let ?L = "concat (page_log s)"
  from assms have "length (take (nat m) (first_seen ?L)) < nat m"
    by (simp add: ids_invariant_def)
  then have "length (first_seen ?L) < nat m" by simp
  with assms(1) have all: "all_ad_ids s = first_seen ?L"
    by (simp add: ids_invariant_def)
  have "add_ad_ids m (all_ad_ids s) ids = take (nat m) (first_seen (all_ad_ids s @ ids))"
    using assms by (intro add_ad_ids_take) (auto simp: ids_invariant_def)
  then show ?thesis by (simp add: all first_seen_idem_append)
qed

lemma ids_invariant_step:
  assumes "ids_invariant m s" "int (length (all_ad_ids s)) < m" "walk_body env m s = (x, s')"
  shows "ids_invariant m s'"
  using assms(3)
proof (cases rule: walk_body_cases)
  case seen
  with assms show ?thesis by simp
next
  case (failed req)
  with assms show ?thesis by (simp add: ids_invariant_def)
next
  case (page req d)
  let ?s2 = "s\<lparr>seen_tokens := (if truthy (pagination_token s)
                    then insert (the (pagination_token s)) (seen_tokens s) else seen_tokens s),
                  fetch_log := fetch_log s @ [(pagination_token s, req)]\<rparr>"
  have inv2: "ids_invariant m ?s2" and len2: "int (length (all_ad_ids ?s2)) < m"
    using assms by (simp_all add: ids_invariant_def)
  from process_page_fields [OF page(5)] add_ad_ids_invariant [OF inv2 len2]
  show ?thesis by (simp add: ids_invariant_def)
qed

lemma ids_invariant_walk: "ids_invariant m (snd (walk env m))"
  unfolding walk_def
proof (rule walk_loop_rule [where I = "ids_invariant m"])
  show "ids_invariant m initial_walk_state"
    by (simp add: ids_invariant_def initial_walk_state_def)
next
  fix s x s'
  assume "ids_invariant m s" "int (length (all_ad_ids s)) < m" "walk_body env m s = (x, s')"
  then show "if x = Continue then ids_invariant m s' else ids_invariant m s'"
    using ids_invariant_step by simp
qed simp

lemma walk_body_not_raised:
  assumes "walk_body env m s = (x, s')"
  shows "x = Continue \<or> x = Break"
  using assms
proof (cases rule: walk_body_cases)
  case (page req d)
  then show ?thesis
    by (auto simp: process_page_def Let_def split: if_splits)
qed simp_all

lemma walk_loop_no_exception: "fst (walk_loop env m st) = None"
proof (induction env m st rule: walk_loop.induct)
  case (1 env m st)
  show ?case
  proof (cases "int (length (all_ad_ids st)) < m")
    case False
    then show ?thesis by simp
  next
    case True
    obtain x s' where b: "walk_body env m st = (x, s')" by (cases "walk_body env m st")
    from walk_body_not_raised [OF b] show ?thesis
    proof
      assume c: "x = Continue"
      from "1.IH" [OF True b [symmetric] c] True b c show ?thesis by simp
    next
      assume "x = Break"
      with True b show ?thesis by simp
    qed
  qed
qed

lemma scrape_search_pages_returns:
  "scrape_search_pages env m = Inr (all_ad_ids (snd (walk env m)))"
  using walk_loop_no_exception [of env m initial_walk_state]
  by (cases "walk_loop env m initial_walk_state") (simp add: scrape_search_pages_def walk_def)

lemma overlapping_pages_walk:
  "all_ad_ids (snd (walk overlapping_pages 100)) = [''11'', ''22'', ''33'', ''44'']
   \<and> page_log (snd (walk overlapping_pages 100)) = [[''11'', ''22'', ''33''], [''22'', ''33'', ''44'']]"
  by code_simp

text \<open>
  C2. The list returned by \<open>scrape_search_pages\<close> has no id twice, is in first-seen
  order across the pages processed (it is the first \<open>max_results\<close> entries of the
  first-seen order of all ids extracted), and is no longer than a non-negative target.
  The walk itself never raises.
\<close>

theorem C2_accumulated_ids:
  "scrape_search_pages env m = Inr (all_ad_ids (snd (walk env m)))
   \<and> distinct (all_ad_ids (snd (walk env m)))
   \<and> all_ad_ids (snd (walk env m)) = take (nat m) (first_seen (concat (page_log (snd (walk env m)))))
   \<and> (0 \<le> m \<longrightarrow> int (length (all_ad_ids (snd (walk env m)))) \<le> m)"
proof -
  have inv: "ids_invariant m (snd (walk env m))" by (rule ids_invariant_walk)
  then have "length (all_ad_ids (snd (walk env m))) \<le> nat m"
    by (metis ids_invariant_def length_take min.cobounded2)
  then have "0 \<le> m \<longrightarrow> int (length (all_ad_ids (snd (walk env m)))) \<le> m" by arith
  with inv scrape_search_pages_returns show ?thesis
    by (simp add: ids_invariant_def)
qed

theorem C2_accumulated_ids_witness:
  "scrape_search_pages overlapping_pages 100 = Inr [''11'', ''22'', ''33'', ''44'']
   \<and> distinct [''11'', ''22'', ''33'', ''44'']
   \<and> [''11'', ''22'', ''33'', ''44'']
       = take 100 (first_seen (concat [[''11'', ''22'', ''33''], [''22'', ''33'', ''44'']]))
   \<and> (0::int) \<le> 100 \<and> int (length [''11'', ''22'', ''33'', ''44'']) \<le> 100"
  using C2_accumulated_ids [of overlapping_pages 100] overlapping_pages_walk
  by simp

section \<open>The walker never fetches with a token twice\<close>

lemma process_page_token:
  "process_page m st d = (Continue, st') \<Longrightarrow> truthy (pagination_token st')"
  by (auto simp: process_page_def Let_def split: if_splits)

lemma tokens_invariant_fetch:
  assumes "tokens_invariant s"
    and "\<not> (truthy (pagination_token s) \<and> the (pagination_token s) \<in> seen_tokens s)"
  shows "distinct (map fst (fetch_log s @ [(pagination_token s, req)]))"
proof -
  have "pagination_token s \<notin> set (map fst (fetch_log s))"
  proof
    assume mem: "pagination_token s \<in> set (map fst (fetch_log s))"
    then have "fetch_log s \<noteq> []" by auto
    with assms(1) have "truthy (pagination_token s)" by (simp add: tokens_invariant_def)
    moreover from this mem assms(1) have "the (pagination_token s) \<in> seen_tokens s"
      unfolding tokens_invariant_def by blast
    ultimately show False using assms(2) by simp
  qed
  with assms(1) show ?thesis by (simp add: tokens_invariant_def)
qed

lemma tokens_invariant_step:
  assumes "tokens_invariant s" "walk_body env m s = (x, s')"
  shows "if x = Continue then tokens_invariant s' else distinct (map fst (fetch_log s'))"
  using assms(2)
proof (cases rule: walk_body_cases)
  case seen
  with assms show ?thesis by (simp add: tokens_invariant_def)
next
  case (failed req)
  with tokens_invariant_fetch [OF assms(1) failed(1)] show ?thesis by simp
next
  case (page req d)
  let ?s2 = "s\<lparr>seen_tokens := (if truthy (pagination_token s)
                    then insert (the (pagination_token s)) (seen_tokens s) else seen_tokens s),
                  fetch_log := fetch_log s @ [(pagination_token s, req)]\<rparr>"
  note f = process_page_fields [OF page(5)]
  have d: "distinct (map fst (fetch_log s'))"
    using f tokens_invariant_fetch [OF assms(1) page(1)] by simp
  show ?thesis
  proof (cases "x = Continue")
    case False
    with d show ?thesis by simp
  next
    case True
    with page(5) have t: "truthy (pagination_token s')" by (simp add: process_page_token)
    have "\<forall>t \<in> set (map fst (fetch_log s')). truthy t \<longrightarrow> the t \<in> seen_tokens s'"
      using f assms(1) by (auto simp: tokens_invariant_def)
    with d t True show ?thesis by (simp add: tokens_invariant_def)
  qed
qed

lemma distinct_tokens_walk: "distinct (map fst (fetch_log (snd (walk env m))))"
  unfolding walk_def
proof (rule walk_loop_rule [where I = tokens_invariant])
  show "tokens_invariant initial_walk_state"
    by (simp add: tokens_invariant_def initial_walk_state_def)
next
  fix s x s'
  assume "tokens_invariant s" "walk_body env m s = (x, s')"
  then show "if x = Continue then tokens_invariant s' else distinct (map fst (fetch_log s'))"
    by (rule tokens_invariant_step)
next
  fix s assume "tokens_invariant s"
  then show "distinct (map fst (fetch_log s))" by (simp add: tokens_invariant_def)
qed

lemma seen_token_stops:
  assumes "int (length (all_ad_ids s)) < m"
    and "truthy (pagination_token s)" "the (pagination_token s) \<in> seen_tokens s"
  shows "walk_loop env m s = (None, s)"
proof -
  from assms(2,3) have "walk_body env m s = (Break, s)"
    by (simp add: walk_body_def)
  with assms(1) show ?thesis by simp
qed

lemma same_token_stops:
  assumes "paginationToken d = pagination_token st"
  shows "fst (process_page m st d) = Break"
  using assms by (simp add: process_page_def Let_def)

lemma fetched_same_token_stops:
  assumes "int (length (all_ad_ids s)) < m"
    and "\<not> (truthy (pagination_token s) \<and> the (pagination_token s) \<in> seen_tokens s)"
    and "normalize_pagination_token (pagination_token s) = Inr req"
    and "fetch_page env (length (fetch_log s)) req = Some d"
    and "paginationToken d = pagination_token s"
  shows "fst (walk_loop env m s) = None
         \<and> fetch_log (snd (walk_loop env m s)) = fetch_log s @ [(pagination_token s, req)]"
proof -
  obtain x s' where b: "walk_body env m s = (x, s')" by (cases "walk_body env m s")
  from b have "x = Break \<and> fetch_log s' = fetch_log s @ [(pagination_token s, req)]"
  proof (cases rule: walk_body_cases)
    case seen
    with assms(2) show ?thesis by simp
  next
    case (failed r)
    with assms(3) show ?thesis by simp
  next
    case (page r d')
    with assms(3,4) have eq: "r = req" "d' = d" by simp_all
    have "fst (process_page m (s\<lparr>seen_tokens := (if truthy (pagination_token s)
                    then insert (the (pagination_token s)) (seen_tokens s) else seen_tokens s),
                  fetch_log := fetch_log s @ [(pagination_token s, r)]\<rparr>) d) = Break"
      by (rule same_token_stops) (simp add: assms(5))
    with page(5) eq have "x = Break" by simp
    with process_page_fields [OF page(5)] eq show ?thesis by simp
  qed
  with assms(1) b show ?thesis by simp
qed

text \<open>
  C1. In every walk the tokens used as input of a fetch are pairwise different. A walk
  that arrives at the loop head with a token already in \<open>seen_tokens\<close> ends there without
  fetching, and a walk that fetches a page whose token equals the token just used ends
  right after that fetch.
\<close>

theorem C1_no_token_fetched_twice:
  "distinct (map fst (fetch_log (snd (walk env m))))
   \<and> (int (length (all_ad_ids s)) < m
        \<and> truthy (pagination_token s) \<and> the (pagination_token s) \<in> seen_tokens s
        \<longrightarrow> walk_loop env m s = (None, s))
   \<and> (int (length (all_ad_ids s)) < m
        \<and> \<not> (truthy (pagination_token s) \<and> the (pagination_token s) \<in> seen_tokens s)
        \<and> normalize_pagination_token (pagination_token s) = Inr req
        \<and> fetch_page env (length (fetch_log s)) req = Some d
        \<and> paginationToken d = pagination_token s
        \<longrightarrow> fst (walk_loop env m s) = None
            \<and> fetch_log (snd (walk_loop env m s)) = fetch_log s @ [(pagination_token s, req)])"
  using distinct_tokens_walk seen_token_stops fetched_same_token_stops by blast

lemma cycling_tokens_walk:
  "walk cycling_tokens 100 = (None, back_at_a)"
  by code_simp

lemma at_c_fetch:
  "normalize_pagination_token (pagination_token at_c) = Inr (''api'', StrValue ''c'')
   \<and> fetch_page cycling_tokens (length (fetch_log at_c)) (''api'', StrValue ''c'')
       = Some \<lparr>html = ''/ad-library/detail/4'', paginationToken = Some ''c''\<rparr>"
  by code_simp

theorem C1_no_token_fetched_twice_witness:
  "distinct (map fst (fetch_log (snd (walk cycling_tokens 100))))
   \<and> map fst (fetch_log (snd (walk cycling_tokens 100))) = [None, Some ''a'', Some ''b'']
   \<and> walk_loop cycling_tokens 100 back_at_a = (None, back_at_a)
   \<and> fetch_log (snd (walk_loop cycling_tokens 100 at_c)) = [(Some ''c'', (''api'', StrValue ''c''))]"
proof -
  have h1: "int (length (all_ad_ids back_at_a)) < 100 \<and> truthy (pagination_token back_at_a)
      \<and> the (pagination_token back_at_a) \<in> seen_tokens back_at_a"
    by (simp add: back_at_a_def truthy_def)
  have h2: "int (length (all_ad_ids at_c)) < 100
      \<and> \<not> (truthy (pagination_token at_c) \<and> the (pagination_token at_c) \<in> seen_tokens at_c)
      \<and> paginationToken \<lparr>html = ''/ad-library/detail/4'', paginationToken = Some ''c''\<rparr>
          = pagination_token at_c \<and> fetch_log at_c = []"
    by (simp add: at_c_def)
  show ?thesis
    using C1_no_token_fetched_twice [of cycling_tokens 100 back_at_a]
      C1_no_token_fetched_twice [of cycling_tokens 100 at_c "(''api'', StrValue ''c'')"
        "\<lparr>html = ''/ad-library/detail/4'', paginationToken = Some ''c''\<rparr>"]
      h1 h2 at_c_fetch cycling_tokens_walk
    by (simp add: back_at_a_def)
qed

section \<open>The number of fetches of a walk\<close>



















section \<open>Properties of the detail-page extraction\<close>

lemma collect_fold_invariant:
  "(\<forall>t \<in> set acc. 10 < length t \<and> length t < 2000
        \<and> \<not> list_ex (\<lambda>skip. str_in skip (py_lower t)) skip_phrases) \<Longrightarrow>
   \<forall>t \<in> set (snd (foldl (\<lambda>(seen_texts, ad_text_parts) text.
                   if admits seen_texts text
                   then (insert text seen_texts, ad_text_parts @ [text])
                   else (seen_texts, ad_text_parts))
                (seen, acc) texts)).
      10 < length t \<and> length t < 2000
      \<and> \<not> list_ex (\<lambda>skip. str_in skip (py_lower t)) skip_phrases"
proof (induction texts arbitrary: seen acc)
  case Nil
  then show ?case by simp
next
  case (Cons x xs)
  show ?case
  proof (cases "admits seen x")
    case True
    with Cons.prems have "\<forall>t \<in> set (acc @ [x]). 10 < length t \<and> length t < 2000
        \<and> \<not> list_ex (\<lambda>skip. str_in skip (py_lower t)) skip_phrases"
      by (auto simp: admits_def)
    from Cons.IH [OF this, of "insert x seen"] True show ?thesis by simp
  next
    case False
    with Cons.IH [OF Cons.prems, of seen] show ?thesis by simp
  qed
qed

lemma collect_text_parts_admitted:
  "t \<in> set (collect_text_parts selected) \<Longrightarrow>
     10 < length t \<and> length t < 2000
     \<and> \<not> list_ex (\<lambda>skip. str_in skip (py_lower t)) skip_phrases"
  using collect_fold_invariant [of "[]" "{}" "concat (map (take 10) selected)"]
  by (simp add: collect_text_parts_def)

lemma unrelated_snoc:
  assumes "unrelated ts" "\<not> is_duplicate ts t"
  shows "unrelated (ts @ [t])"
  unfolding unrelated_def
proof (intro allI impI)
  fix i j assume ij: "i < j \<and> j < length (ts @ [t])"
  show "\<not> str_in ((ts @ [t]) ! j) ((ts @ [t]) ! i) \<and> \<not> str_in ((ts @ [t]) ! i) ((ts @ [t]) ! j)"
  proof (cases "j < length ts")
    case True
    with ij assms(1) show ?thesis by (simp add: unrelated_def nth_append)
  next
    case False
    with ij have j: "j = length ts" and i: "i < length ts" by simp_all
    from i have "ts ! i \<in> set ts" by simp
    with assms(2) have "\<not> str_in t (ts ! i) \<and> \<not> str_in (ts ! i) t"
      by (auto simp: is_duplicate_def list_ex_iff)
    with i j show ?thesis by (simp add: nth_append)
  qed
qed

lemma unique_fold:
  "unrelated acc \<Longrightarrow> set acc \<subseteq> S \<Longrightarrow> set parts \<subseteq> S \<Longrightarrow>
     unrelated (foldl (\<lambda>unique text. if is_duplicate unique text then unique else unique @ [text])
                 acc parts)
     \<and> set (foldl (\<lambda>unique text. if is_duplicate unique text then unique else unique @ [text])
                 acc parts) \<subseteq> S"
proof (induction parts arbitrary: acc)
  case Nil
  then show ?case by simp
next
  case (Cons x xs)
  show ?case
  proof (cases "is_duplicate acc x")
    case True
    with Cons.IH [of acc] Cons.prems show ?thesis by simp
  next
    case False
    with Cons.prems have "unrelated (acc @ [x])" "set (acc @ [x]) \<subseteq> S" "set xs \<subseteq> S"
      by (simp_all add: unrelated_snoc)
    from Cons.IH [OF this] False show ?thesis by simp
  qed
qed

lemma unique_texts_unrelated:
  "unrelated (unique_texts parts) \<and> set (unique_texts parts) \<subseteq> set parts"
  using unique_fold [of "[]" "set parts" parts]
  by (simp add: unique_texts_def unrelated_def)

lemma unrelated_take: "unrelated ts \<Longrightarrow> unrelated (take n ts)"
  by (simp add: unrelated_def)

text \<open>
  C8. At most five text blocks are kept; each is longer than 10 and shorter than 2000
  characters and its lower-cased form holds no phrase of the denylist; no kept block is a
  substring or a superstring of a block kept before it.
\<close>

theorem C8_text_cleaning:
  "length (kept_texts selected) \<le> 5
   \<and> (\<forall>t \<in> set (kept_texts selected).
         10 < length t \<and> length t < 2000
         \<and> (\<forall>skip \<in> set skip_phrases. \<not> str_in skip (py_lower t)))
   \<and> (\<forall>i j. i < j \<and> j < length (kept_texts selected)
         \<longrightarrow> \<not> str_in (kept_texts selected ! j) (kept_texts selected ! i)
             \<and> \<not> str_in (kept_texts selected ! i) (kept_texts selected ! j))"
proof -
  have len: "length (kept_texts selected) \<le> 5" by (simp add: kept_texts_def)
  have "set (kept_texts selected) \<subseteq> set (unique_texts (collect_text_parts selected))"
    unfolding kept_texts_def by (rule set_take_subset)
  moreover have "set (unique_texts (collect_text_parts selected))
      \<subseteq> set (collect_text_parts selected)"
    using unique_texts_unrelated [of "collect_text_parts selected"] by (rule conjunct2)
  ultimately have sub: "set (kept_texts selected) \<subseteq> set (collect_text_parts selected)"
    by (rule subset_trans)
  have a: "\<forall>t \<in> set (kept_texts selected).
         10 < length t \<and> length t < 2000
         \<and> (\<forall>skip \<in> set skip_phrases. \<not> str_in skip (py_lower t))"
  proof
    fix t assume "t \<in> set (kept_texts selected)"
    with sub have "t \<in> set (collect_text_parts selected)" by (rule subsetD)
    from collect_text_parts_admitted [OF this]
    show "10 < length t \<and> length t < 2000
         \<and> (\<forall>skip \<in> set skip_phrases. \<not> str_in skip (py_lower t))"
      by (simp only: list_ex_iff) blast
  qed
  have "unrelated (unique_texts (collect_text_parts selected))"
    using unique_texts_unrelated [of "collect_text_parts selected"] by (rule conjunct1)
  then have "unrelated (kept_texts selected)"
    unfolding kept_texts_def by (rule unrelated_take)
  then have u: "\<forall>i j. i < j \<and> j < length (kept_texts selected)
         \<longrightarrow> \<not> str_in (kept_texts selected ! j) (kept_texts selected ! i)
             \<and> \<not> str_in (kept_texts selected ! i) (kept_texts selected ! j)"
    by (simp only: unrelated_def)
  from len a u show ?thesis by blast
qed

lemma buy_now_kept:
  "kept_texts [[''Buy now'', ''Buy now today'', ''Cookie policy applies'']] = [''Buy now today'']"
  by code_simp

lemma buy_now_text:
  "ad_text [[''Buy now'', ''Buy now today'', ''Cookie policy applies'']] = Some ''Buy now today''"
  by code_simp

theorem C8_text_cleaning_witness:
  "kept_texts [[''Buy now'', ''Buy now today'', ''Cookie policy applies'']] = [''Buy now today'']
   \<and> length [''Buy now today''] \<le> 5
   \<and> 10 < length ''Buy now today'' \<and> length ''Buy now today'' < 2000
   \<and> \<not> str_in ''policy'' (py_lower ''Buy now today'')"
proof -
  let ?sel = "[[''Buy now'', ''Buy now today'', ''Cookie policy applies'']]"
  note c8 = C8_text_cleaning [of ?sel]
  from c8 have "\<forall>t \<in> set (kept_texts ?sel).
         10 < length t \<and> length t < 2000
         \<and> (\<forall>skip \<in> set skip_phrases. \<not> str_in skip (py_lower t))"
    by (elim conjE)
  then have "\<forall>t \<in> set [''Buy now today''].
         10 < length t \<and> length t < 2000
         \<and> (\<forall>skip \<in> set skip_phrases. \<not> str_in skip (py_lower t))"
    by (simp only: buy_now_kept)
  moreover have "''policy'' \<in> set skip_phrases" by (simp add: skip_phrases_def)
  ultimately have "10 < length ''Buy now today'' \<and> length ''Buy now today'' < 2000
      \<and> \<not> str_in ''policy'' (py_lower ''Buy now today'')"
    by (metis list.set_intros(1))
  with buy_now_kept show ?thesis by simp
qed

lemma fallback_reads_empty_lists:
  "ad_type (scrape_ad_type_and_assets None extracted) = None
   \<and> assets (scrape_ad_type_and_assets None extracted) = extracted"
  by (simp add: scrape_ad_type_and_assets_def infer_ad_type_def new_ad_detail_def truthy_def)

text \<open>
  C9. With no explicit marker in the page text, the type of the record stays absent
  although the page yields a video: the fallback runs on the still empty lists of the
  record, before the extracted assets are stored. Run on a record that holds the
  extracted assets, the same fallback gives the type \<open>Video Ad\<close>.
\<close>

theorem C9_type_absent_despite_video:
  "ad_type (scrape_ad_type_and_assets None
      \<lparr>images = [], videos = [''https://dms.licdn.com/playlist/vid/v2/A/mp4-720p-30fp-crf28/B''],
       posters = []\<rparr>) = None
   \<and> ad_type (infer_ad_type \<lparr>ad_type = None, assets =
      \<lparr>images = [], videos = [''https://dms.licdn.com/playlist/vid/v2/A/mp4-720p-30fp-crf28/B''],
       posters = []\<rparr>\<rparr>) = Some ''Video Ad''"
  by (simp add: scrape_ad_type_and_assets_def infer_ad_type_def new_ad_detail_def truthy_def)

section \<open>Asset URLs that do not parse\<close>

lemma parse_failure_returns_url:
  "urlparse ok url = Inl e \<Longrightarrow> normalize_url ok url = url \<and> get_video_base_path ok url = url"
  by (simp add: normalize_url_def get_video_base_path_def)

text \<open>
  C7. For an image URL with an unmatched bracket in its network location, \<open>urlparse\<close>
  raises; both identity functions catch the exception and return the URL itself; but
  \<open>_generate_filename\<close> parses the same URL unguarded, and its \<open>ValueError\<close> leaves
  \<open>_download_ad_assets_with_dedup\<close>, which the pipeline calls outside any \<open>try\<close>.
\<close>

theorem C7_unguarded_parse_aborts:
  "urlparse (host_ok obliging_world) ''https://[media/a.jpg'' = Inl ValueError
   \<and> normalize_url (host_ok obliging_world) ''https://[media/a.jpg'' = ''https://[media/a.jpg''
   \<and> get_video_base_path (host_ok obliging_world) ''https://[media/a.jpg'' = ''https://[media/a.jpg''
   \<and> generate_filename obliging_world ''https://[media/a.jpg'' ''image'' ''7'' 1 = Inl ValueError
   \<and> fst (download_ad_assets_with_dedup obliging_world ''7'' None bad_image ''out'' fresh_state)
       = Inl ValueError"
  by code_simp


text \<open>
  C5, as stated, fails: where the download of the first materialization fails, the second
  materialization attempts it again and returns another list of paths.
\<close>

theorem C5_retry_counterexample:
  "fst (download_ad_assets_with_dedup flaky_world ''7'' None one_image ''out'' fresh_state)
     = Inr \<lparr>images = [], videos = [], posters = [], logo = None\<rparr>
   \<and> fst (download_ad_assets_with_dedup flaky_world ''7'' None one_image ''out''
           (snd (download_ad_assets_with_dedup flaky_world ''7'' None one_image ''out'' fresh_state)))
     = Inr \<lparr>images = [''out/7/images/7_a_jpg_1.jpg''], videos = [], posters = [], logo = None\<rparr>
   \<and> attempts (snd (download_ad_assets_with_dedup flaky_world ''7'' None one_image ''out'' fresh_state))
     = [(''https://media.licdn.com/dms/image/v2/D4E/a.jpg?e=1'', ''out/7/images/7_a_jpg_1.jpg'', False)]
   \<and> attempts (snd (download_ad_assets_with_dedup flaky_world ''7'' None one_image ''out''
           (snd (download_ad_assets_with_dedup flaky_world ''7'' None one_image ''out'' fresh_state))))
     = [(''https://media.licdn.com/dms/image/v2/D4E/a.jpg?e=1'', ''out/7/images/7_a_jpg_1.jpg'', False),
        (''https://media.licdn.com/dms/image/v2/D4E/a.jpg?e=1'', ''out/7/images/7_a_jpg_1.jpg'', True)]"
  by code_simp

section \<open>Identities of URLs that differ in query string or fragment\<close>
















section \<open>Identities of video renditions\<close>

lemma takeWhile_digits_stop:
  "list_all is_digit d \<Longrightarrow> \<not> is_digit c \<Longrightarrow> takeWhile is_digit (d @ c # r) = d"
  by (induction d) auto

lemma dropWhile_digits_stop:
  "list_all is_digit d \<Longrightarrow> \<not> is_digit c \<Longrightarrow> dropWhile is_digit (d @ c # r) = c # r"
  by (induction d) auto

lemma match_digits_stop:
  "d \<noteq> [] \<Longrightarrow> list_all is_digit d \<Longrightarrow> \<not> is_digit c \<Longrightarrow> match_digits (d @ c # r) = Some (c # r)"
  by (simp add: match_digits_def takeWhile_digits_stop dropWhile_digits_stop)

lemma match_profile_segment:
  assumes "valid_profile res fps tail"
  shows "match_profile (profile_segment res fps tail @ post)
           = Some (length (profile_segment res fps tail))"
proof -
  from assms have r: "res \<noteq> []" "list_all is_digit res" and f: "fps \<noteq> []" "list_all is_digit fps"
    and t: "tail \<noteq> []" "CHR ''/'' \<notin> set tail"
    by (simp_all add: valid_profile_def)
  have np: "\<not> is_digit CHR ''p''" and nf: "\<not> is_digit CHR ''f''"
    by (simp_all add: is_digit_def)
  have m1: "match_lit ''/mp4-'' (profile_segment res fps tail @ post)
      = Some (res @ CHR ''p'' # (''-'' @ fps @ ''fp-'' @ tail @ ''/'' @ post))"
    by (simp add: match_lit_def profile_segment_def)
  have m2: "match_digits (res @ CHR ''p'' # (''-'' @ fps @ ''fp-'' @ tail @ ''/'' @ post))
      = Some (CHR ''p'' # (''-'' @ fps @ ''fp-'' @ tail @ ''/'' @ post))"
    using r np by (rule match_digits_stop)
  have m3: "match_lit ''p-'' (CHR ''p'' # (''-'' @ fps @ ''fp-'' @ tail @ ''/'' @ post))
      = Some (fps @ CHR ''f'' # (''p-'' @ tail @ ''/'' @ post))"
    by (simp add: match_lit_def)
  have m4: "match_digits (fps @ CHR ''f'' # (''p-'' @ tail @ ''/'' @ post))
      = Some (CHR ''f'' # (''p-'' @ tail @ ''/'' @ post))"
    using f nf by (rule match_digits_stop)
  have m5: "match_lit ''fp-'' (CHR ''f'' # (''p-'' @ tail @ ''/'' @ post))
      = Some (tail @ CHR ''/'' # post)"
    by (simp add: match_lit_def)
  have tw: "takeWhile (\<lambda>c. c \<noteq> CHR ''/'') (tail @ CHR ''/'' # post) = tail"
    using t(2) by (induction tail) auto
  have dw: "dropWhile (\<lambda>c. c \<noteq> CHR ''/'') (tail @ CHR ''/'' # post) = CHR ''/'' # post"
    using t(2) by (induction tail) auto
  have len: "length (profile_segment res fps tail @ post) - length (CHR ''/'' # post) + 1
      = length (profile_segment res fps tail)"
    by (simp add: profile_segment_def)
  show ?thesis
    unfolding match_profile_def
    by (simp only: m1 m2 m3 m4 m5 tw dw len t(1) option.case Let_def list.simps if_False simp_thms)
qed

lemma re_sub_skip: "re_sub m r (length xs) (xs @ ys) = re_sub m r 0 ys"
  by (induction xs) auto

lemma re_sub_match:
  assumes "m (xs @ ys) = Some (length xs)" "xs \<noteq> []"
  shows "re_sub m r 0 (xs @ ys) = r @ re_sub m r 0 ys"
proof -
  from assms(2) obtain c cs where xs: "xs = c # cs" by (cases xs) auto
  with assms(1) re_sub_skip [of m r cs ys] show ?thesis by simp
qed

lemma re_sub_no_match:
  "(\<And>i. i < length pre \<Longrightarrow> m (drop i pre @ rest) = None)
     \<Longrightarrow> re_sub m r 0 (pre @ rest) = pre @ re_sub m r 0 rest"
proof (induction pre)
  case Nil
  show ?case by simp
next
  case (Cons c cs)
  from Cons.prems [of 0] have "m ((c # cs) @ rest) = None" by simp
  moreover have "re_sub m r 0 (cs @ rest) = cs @ re_sub m r 0 rest"
  proof (rule Cons.IH)
    fix i assume "i < length cs"
    with Cons.prems [of "Suc i"] show "m (drop i cs @ rest) = None" by simp
  qed
  ultimately show ?case by simp
qed

lemma str_in_append_left: "str_in sub xs \<Longrightarrow> str_in sub (ys @ xs)"
  by (induction ys) auto

lemma str_in_prefix: "prefix sub xs \<Longrightarrow> str_in sub xs"
  by (cases xs) auto

lemma str_in_drop: "str_in sub (drop i xs) \<Longrightarrow> str_in sub xs"
  using str_in_append_left [of sub "drop i xs" "take i xs"] by simp

lemma prefix_mp4_straddle:
  assumes "prefix ''/mp4-'' (q @ CHR ''/'' # rest)" "q \<noteq> []"
  shows "prefix ''/mp4-'' q"
proof -
  consider (five) a b c d e q' where "q = a # b # c # d # e # q'"
    | (four) a b c d where "q = [a, b, c, d]"
    | (three) a b c where "q = [a, b, c]"
    | (two) a b where "q = [a, b]"
    | (one) a where "q = [a]"
    using assms(2)
    by (cases q; cases "tl q"; cases "tl (tl q)"; cases "tl (tl (tl q))";
        cases "tl (tl (tl (tl q)))") auto
  then show ?thesis
  proof cases
    case five
    with assms(1) show ?thesis by simp
  qed (use assms(1) in auto)
qed

lemma no_profile_in_prefix:
  assumes "\<not> str_in ''/mp4-'' pre" "i < length pre"
  shows "match_profile (drop i pre @ CHR ''/'' # rest) = None"
proof -
  have "\<not> prefix ''/mp4-'' (drop i pre @ CHR ''/'' # rest)"
  proof
    assume "prefix ''/mp4-'' (drop i pre @ CHR ''/'' # rest)"
    moreover from assms(2) have "drop i pre \<noteq> []" by simp
    ultimately have "prefix ''/mp4-'' (drop i pre)" by (rule prefix_mp4_straddle)
    then have "str_in ''/mp4-'' pre" using str_in_prefix str_in_drop by blast
    with assms(1) show False by simp
  qed
  then show ?thesis by (simp add: match_profile_def match_lit_def)
qed

lemma re_sub_profile:
  assumes "valid_profile res fps tail" "\<not> str_in ''/mp4-'' pre"
  shows "re_sub match_profile ''/'' 0 (pre @ profile_segment res fps tail @ post)
           = pre @ ''/'' @ re_sub match_profile ''/'' 0 post"
proof -
  obtain rest where seg: "profile_segment res fps tail @ post = CHR ''/'' # rest"
    by (simp add: profile_segment_def)
  have "re_sub match_profile ''/'' 0 (pre @ profile_segment res fps tail @ post)
      = pre @ re_sub match_profile ''/'' 0 (profile_segment res fps tail @ post)"
  proof (rule re_sub_no_match)
    fix i assume "i < length pre"
    from no_profile_in_prefix [OF assms(2) this, of rest] seg
    show "match_profile (drop i pre @ profile_segment res fps tail @ post) = None" by simp
  qed
  moreover have "re_sub match_profile ''/'' 0 (profile_segment res fps tail @ post)
      = ''/'' @ re_sub match_profile ''/'' 0 post"
    using match_profile_segment [OF assms(1)]
    by (rule re_sub_match) (simp add: profile_segment_def)
  ultimately show ?thesis by simp
qed

lemma strip_quality_profile:
  assumes "valid_profile r1 f1 t1" "valid_profile r2 f2 t2" "\<not> str_in ''/mp4-'' pre"
  shows "strip_quality (pre @ profile_segment r1 f1 t1 @ post)
           = strip_quality (pre @ profile_segment r2 f2 t2 @ post)"
  by (simp only: strip_quality_def re_sub_profile [OF assms(1,3)] re_sub_profile [OF assms(2,3)])

lemma video_identity_of_renditions:
  assumes "urlparse ok u1 = Inr p1" "urlparse ok u2 = Inr p2"
    and "scheme p1 = scheme p2" "netloc p1 = netloc p2"
    and "path p1 = pre @ profile_segment r1 f1 t1 @ post"
    and "path p2 = pre @ profile_segment r2 f2 t2 @ post"
    and "valid_profile r1 f1 t1" "valid_profile r2 f2 t2" "\<not> str_in ''/mp4-'' pre"
  shows "get_video_base_path ok u1 = get_video_base_path ok u2"
  using assms(1-6) strip_quality_profile [OF assms(7-9), of post]
  by (simp add: get_video_base_path_def)

section \<open>A second materialization\<close>

lemma is_duplicate_asset_cell:
  "is_duplicate_asset ok c url kind =
     (case cell c (slot kind) (ident ok kind url) of
        Some p \<Rightarrow> (True, Some p) | None \<Rightarrow> (False, None))"
  by (simp add: is_duplicate_asset_def slot_def ident_def)

lemma is_duplicate_asset_hit:
  "(case is_duplicate_asset ok c url kind of (is_dup, existing) \<Rightarrow> is_dup \<and> truthy existing)
     = hit ok c kind url"
  by (auto simp: is_duplicate_asset_cell hit_def truthy_def split: option.splits)

lemma is_duplicate_asset_path:
  "hit ok c kind url \<Longrightarrow>
     snd (is_duplicate_asset ok c url kind) = cell c (slot kind) (ident ok kind url)"
  by (auto simp: is_duplicate_asset_cell hit_def truthy_def split: option.splits)

lemma cache_key_cases:
  assumes "cache_key k"
  obtains "k = ''logos''" | "k = ''images''" | "k = ''videos''" | "k = ''posters''"
  using assms by (auto simp: cache_key_def)

lemma cell_keys:
  "cell c ''logos'' n = seen_logos c n" "cell c ''images'' n = seen_images c n"
  "cell c ''videos'' n = seen_videos c n" "cell c ''posters'' n = seen_posters c n"
  by (simp_all add: cell_def)

lemma cell_other: "\<not> cache_key key \<Longrightarrow> cell c key n = None"
  by (simp add: cell_def cache_key_def)

lemma register_keys:
  "register c ''logos'' n p = c\<lparr>seen_logos := (seen_logos c)(n \<mapsto> p)\<rparr>"
  "register c ''images'' n p = c\<lparr>seen_images := (seen_images c)(n \<mapsto> p)\<rparr>"
  "register c ''videos'' n p = c\<lparr>seen_videos := (seen_videos c)(n \<mapsto> p)\<rparr>"
  "register c ''posters'' n p = c\<lparr>seen_posters := (seen_posters c)(n \<mapsto> p)\<rparr>"
  by (simp_all add: register_def)

lemma register_other: "\<not> cache_key key \<Longrightarrow> register c key n p = c"
  by (simp add: register_def cache_key_def)

lemma cell_register_same:
  "cache_key key \<Longrightarrow> cell (register c key n p) key n' = (if n' = n then Some p else cell c key n')"
  by (erule cache_key_cases) (simp_all add: cell_keys register_keys)

lemma cell_register_key:
  assumes "cache_key key" "cache_key key'" "key' \<noteq> key"
  shows "cell (register c key n p) key' n' = cell c key' n'"
  using assms(1)
proof (cases rule: cache_key_cases)
  case 1
  from assms(2) show ?thesis
    by (cases rule: cache_key_cases) (use 1 assms(3) in \<open>simp_all add: cell_keys register_keys\<close>)
next
  case 2
  from assms(2) show ?thesis
    by (cases rule: cache_key_cases) (use 2 assms(3) in \<open>simp_all add: cell_keys register_keys\<close>)
next
  case 3
  from assms(2) show ?thesis
    by (cases rule: cache_key_cases) (use 3 assms(3) in \<open>simp_all add: cell_keys register_keys\<close>)
next
  case 4
  from assms(2) show ?thesis
    by (cases rule: cache_key_cases) (use 4 assms(3) in \<open>simp_all add: cell_keys register_keys\<close>)
qed

lemma cell_register:
  "cell (register c key n p) key' n' =
     (if cache_key key \<and> key' = key \<and> n' = n then Some p else cell c key' n')"
proof (cases "cache_key key")
  case False
  then show ?thesis by (simp add: register_other)
next
  case True
  show ?thesis
  proof (cases "key' = key")
    case same: True
    with True show ?thesis by (simp add: cell_register_same)
  next
    case other: False
    show ?thesis
    proof (cases "cache_key key'")
      case True
      with \<open>cache_key key\<close> other show ?thesis by (simp add: cell_register_key)
    next
      case False
      with other show ?thesis by (simp add: cell_other)
    qed
  qed
qed

lemma keeps_refl: "keeps c c"
  by (simp add: keeps_def)

lemma keeps_trans:
  assumes "keeps c c'" "keeps c' c''"
  shows "keeps c c''"
  unfolding keeps_def
proof (intro allI impI)
  fix key n assume t: "truthy (cell c key n)"
  with assms(1) have e: "cell c' key n = cell c key n" by (simp add: keeps_def)
  with t assms(2) have "cell c'' key n = cell c' key n" by (simp add: keeps_def)
  with e show "cell c'' key n = cell c key n" by simp
qed

lemma keeps_register: "\<not> truthy (cell c key n) \<Longrightarrow> keeps c (register c key n p)"
  by (auto simp: keeps_def cell_register)

lemma keeps_hit: "keeps c c' \<Longrightarrow> hit ok c kind url \<Longrightarrow> hit ok c' kind url"
  by (simp add: keeps_def hit_def)

lemma keeps_cell: "keeps c c' \<Longrightarrow> truthy (cell c key n) \<Longrightarrow> cell c' key n = cell c key n"
  by (simp add: keeps_def)

lemma extends_refl: "extends st st"
  by (simp add: extends_def)

lemma extends_trans: "extends st st' \<Longrightarrow> extends st' st'' \<Longrightarrow> extends st st''"
  by (auto simp: extends_def)

lemma new_attempts_trans:
  assumes "extends st st'" "extends st' st''"
  shows "new_attempts st st'' = new_attempts st st' @ new_attempts st' st''"
proof -
  from assms(1) obtain n1 where n1: "attempts st' = attempts st @ n1"
    by (auto simp: extends_def)
  from assms(2) obtain n2 where n2: "attempts st'' = attempts st' @ n2"
    by (auto simp: extends_def)
  show ?thesis by (simp add: new_attempts_def n1 n2)
qed

lemma try_download_facts:
  assumes "try_download w url p st = (success, st1)"
  shows "attempts st1 = attempts st @ [(url, p, success)]" and "cache st1 = cache st"
proof -
  from assms have s1: "st1 = st\<lparr>attempts := attempts st
      @ [(url, p, download_asset w (length (attempts st)) url p)]\<rparr>"
    and s: "success = download_asset w (length (attempts st)) url p"
    by (auto simp: try_download_def Let_def)
  from s1 s show "attempts st1 = attempts st @ [(url, p, success)]" by simp
  from s1 show "cache st1 = cache st" by simp
qed

lemma path_step_nonempty:
  "b \<noteq> [] \<Longrightarrow> (if prefix ''/'' b then b
                else if a = [] \<or> last a = CHR ''/'' then a @ b else a @ ''/'' @ b) \<noteq> []"
  by simp

lemma path_join_nonempty:
  assumes "b \<noteq> []"
  shows "path_join a [b, c] \<noteq> []"
proof (cases "prefix ''/'' c")
  case True
  then have "c \<noteq> []" by auto
  with True show ?thesis by simp
next
  case False
  from path_step_nonempty [OF assms, of a] False show ?thesis
    by (simp del: prefix_code)
qed

lemma download_listed_hit_step:
  assumes "hit (host_ok w) (cache st) kind u"
  shows "download_listed w kind ad dir i (u # us) (st, acc)
           = download_listed w kind ad dir (Suc i) us
               (st, acc @ [the (cell (cache st) (slot kind) (ident (host_ok w) kind u))])"
proof -
  obtain d e where de: "is_duplicate_asset (host_ok w) (cache st) u kind = (d, e)"
    by (cases "is_duplicate_asset (host_ok w) (cache st) u kind")
  with is_duplicate_asset_hit [of "host_ok w" "cache st" u kind] assms
  have "d \<and> truthy e" by simp
  moreover from is_duplicate_asset_path [OF assms] de
  have "e = cell (cache st) (slot kind) (ident (host_ok w) kind u)" by simp
  ultimately show ?thesis using de by simp
qed

lemma download_listed_miss_step:
  assumes "\<not> hit (host_ok w) (cache st) kind u"
  shows "download_listed w kind ad dir i (u # us) (st, acc)
           = (case generate_filename w u kind ad i of
                Inl e \<Rightarrow> (Inl e, st)
              | Inr fn \<Rightarrow>
                  (case try_download w u (path_join dir [kind @ ''s'', fn]) st of
                     (success, st1) \<Rightarrow>
                       if success
                       then download_listed w kind ad dir (Suc i) us
                              (st1\<lparr>cache := register (cache st1) (kind @ ''s'')
                                     (normalize_url (host_ok w) u)
                                     (path_join dir [kind @ ''s'', fn])\<rparr>,
                               acc @ [path_join dir [kind @ ''s'', fn]])
                       else download_listed w kind ad dir (Suc i) us (st1, acc)))"
proof -
  obtain d e where de: "is_duplicate_asset (host_ok w) (cache st) u kind = (d, e)"
    by (cases "is_duplicate_asset (host_ok w) (cache st) u kind")
  with is_duplicate_asset_hit [of "host_ok w" "cache st" u kind] assms
  have c: "(d \<and> truthy e) = False" by simp
  show ?thesis
    by (simp only: download_listed.simps de prod.case c if_False Let_def)
qed

lemma download_listed_extends:
  "download_listed w kind ad dir i us (st, acc) = (r, st') \<Longrightarrow> extends st st'"
proof (induction us arbitrary: st acc i)
  case Nil
  then show ?case by (simp add: extends_refl)
next
  case (Cons u us)
  show ?case
  proof (cases "hit (host_ok w) (cache st) kind u")
    case True
    from Cons.prems show ?thesis
      unfolding download_listed_hit_step [OF True] by (rule Cons.IH)
  next
    case False
    show ?thesis
    proof (cases "generate_filename w u kind ad i")
      case (Inl e)
      with Cons.prems show ?thesis
        unfolding download_listed_miss_step [OF False] by (simp add: extends_refl)
    next
      case (Inr fn)
      obtain success st1 where t: "try_download w u (path_join dir [kind @ ''s'', fn]) st = (success, st1)"
        by (cases "try_download w u (path_join dir [kind @ ''s'', fn]) st")
      from try_download_facts(1) [OF t] have e1: "extends st st1" by (simp add: extends_def)
      show ?thesis
      proof (cases success)
        case True
        with Cons.prems Inr t have "download_listed w kind ad dir (Suc i) us
            (st1\<lparr>cache := register (cache st1) (kind @ ''s'') (normalize_url (host_ok w) u)
                (path_join dir [kind @ ''s'', fn])\<rparr>, acc @ [path_join dir [kind @ ''s'', fn]])
            = (r, st')"
          unfolding download_listed_miss_step [OF False] by simp
        from Cons.IH [OF this] have "extends st1 st'" by (simp add: extends_def)
        with e1 show ?thesis by (rule extends_trans)
      next
        case False
        with Cons.prems Inr t have "download_listed w kind ad dir (Suc i) us (st1, acc) = (r, st')"
          unfolding download_listed_miss_step [OF \<open>\<not> hit (host_ok w) (cache st) kind u\<close>] by simp
        from Cons.IH [OF this] e1 show ?thesis by (rule extends_trans [rotated])
      qed
    qed
  qed
qed

lemma download_listed_hits:
  "\<forall>u \<in> set us. hit (host_ok w) (cache st) kind u \<Longrightarrow>
     download_listed w kind ad dir i us (st, acc)
       = (Inr (acc @ map (\<lambda>u. the (cell (cache st) (slot kind) (ident (host_ok w) kind u))) us), st)"
proof (induction us arbitrary: acc i)
  case Nil
  show ?case by simp
next
  case (Cons u us)
  then have h: "hit (host_ok w) (cache st) kind u" by simp
  from Cons.prems have "\<forall>u \<in> set us. hit (host_ok w) (cache st) kind u" by simp
  from Cons.IH [OF this] show ?case
    unfolding download_listed_hit_step [OF h] by simp
qed

lemma slot_ident_listed:
  "kind \<noteq> ''video'' \<Longrightarrow> slot kind = kind @ ''s'' \<and> ident ok kind u = normalize_url ok u"
  by (simp add: slot_def ident_def)

lemma new_attempts_after_try:
  assumes "try_download w u p st = (success, st1)" "extends st1 st'"
  shows "new_attempts st st' = (u, p, success) # new_attempts st1 st'"
proof -
  from try_download_facts(1) [OF assms(1)] have "extends st st1" by (simp add: extends_def)
  from new_attempts_trans [OF this assms(2)] try_download_facts(1) [OF assms(1)]
  show ?thesis by (simp add: new_attempts_def)
qed

lemma download_listed_first:
  assumes "cache_key (kind @ ''s'')" "kind \<noteq> ''video''"
  shows "download_listed w kind ad dir i us (st, acc) = (Inr out, st')
     \<Longrightarrow> \<forall>a \<in> set (new_attempts st st'). snd (snd a)
     \<Longrightarrow> keeps (cache st) (cache st')
         \<and> (\<forall>u \<in> set us. hit (host_ok w) (cache st') kind u)
         \<and> out = acc @ map (\<lambda>u. the (cell (cache st') (slot kind) (ident (host_ok w) kind u))) us"
proof (induction us arbitrary: st acc i)
  case Nil
  then show ?case by (simp add: keeps_refl)
next
  case (Cons u us)
  note si = slot_ident_listed [OF assms(2)]
  show ?case
  proof (cases "hit (host_ok w) (cache st) kind u")
    case True
    let ?v = "the (cell (cache st) (slot kind) (ident (host_ok w) kind u))"
    from Cons.prems(1) have run: "download_listed w kind ad dir (Suc i) us (st, acc @ [?v])
        = (Inr out, st')"
      unfolding download_listed_hit_step [OF True] .
    from Cons.IH [OF run Cons.prems(2)]
    have k: "keeps (cache st) (cache st')"
      and h: "\<forall>u \<in> set us. hit (host_ok w) (cache st') kind u"
      and o: "out = (acc @ [?v])
          @ map (\<lambda>u. the (cell (cache st') (slot kind) (ident (host_ok w) kind u))) us"
      by simp_all
    from True have "truthy (cell (cache st) (slot kind) (ident (host_ok w) kind u))"
      by (simp add: hit_def)
    from keeps_cell [OF k this]
    have same: "cell (cache st') (slot kind) (ident (host_ok w) kind u)
        = cell (cache st) (slot kind) (ident (host_ok w) kind u)" .
    from keeps_hit [OF k True] h k o same show ?thesis by simp
  next
    case False
    obtain fn where fn: "generate_filename w u kind ad i = Inr fn"
      using Cons.prems(1) unfolding download_listed_miss_step [OF False]
      by (cases "generate_filename w u kind ad i") auto
    let ?p = "path_join dir [kind @ ''s'', fn]"
    obtain success st1 where t: "try_download w u ?p st = (success, st1)"
      by (cases "try_download w u ?p st")
    let ?st2 = "st1\<lparr>cache := register (cache st1) (kind @ ''s'') (normalize_url (host_ok w) u) ?p\<rparr>"
    from Cons.prems(1) fn t
    have run: "(if success then download_listed w kind ad dir (Suc i) us (?st2, acc @ [?p])
               else download_listed w kind ad dir (Suc i) us (st1, acc)) = (Inr out, st')"
      unfolding download_listed_miss_step [OF False] by simp
    have ext: "extends st1 st'"
    proof (cases success)
      case True
      with run download_listed_extends [of w kind ad dir "Suc i" us ?st2 "acc @ [?p]" "Inr out" st']
      show ?thesis by (simp add: extends_def)
    next
      case False
      with run download_listed_extends [of w kind ad dir "Suc i" us st1 acc "Inr out" st']
      show ?thesis by simp
    qed
    from new_attempts_after_try [OF t ext] Cons.prems(2)
    have succ: success and rest: "\<forall>a \<in> set (new_attempts st1 st'). snd (snd a)"
      by simp_all
    from run succ have run2: "download_listed w kind ad dir (Suc i) us (?st2, acc @ [?p])
        = (Inr out, st')" by simp
    have "new_attempts ?st2 st' = new_attempts st1 st'" by (simp add: new_attempts_def)
    with rest have rest2: "\<forall>a \<in> set (new_attempts ?st2 st'). snd (snd a)" by simp
    from Cons.IH [OF run2 rest2]
    have k2: "keeps (cache ?st2) (cache st')"
      and h: "\<forall>u \<in> set us. hit (host_ok w) (cache st') kind u"
      and o: "out = (acc @ [?p])
          @ map (\<lambda>u. the (cell (cache st') (slot kind) (ident (host_ok w) kind u))) us"
      by simp_all
    from False si have "\<not> truthy (cell (cache st) (kind @ ''s'') (normalize_url (host_ok w) u))"
      by (simp add: hit_def)
    then have "keeps (cache st) (register (cache st) (kind @ ''s'') (normalize_url (host_ok w) u) ?p)"
      by (rule keeps_register)
    with try_download_facts(2) [OF t] have k1: "keeps (cache st) (cache ?st2)" by simp
    from k1 k2 have k: "keeps (cache st) (cache st')" by (rule keeps_trans)
    have pne: "?p \<noteq> []" by (rule path_join_nonempty) simp
    have c2: "cell (cache ?st2) (kind @ ''s'') (normalize_url (host_ok w) u) = Some ?p"
      using assms(1) by (simp add: cell_register)
    with pne have "truthy (cell (cache ?st2) (kind @ ''s'') (normalize_url (host_ok w) u))"
      by (simp add: truthy_def)
    from keeps_cell [OF k2 this] c2
    have c': "cell (cache st') (kind @ ''s'') (normalize_url (host_ok w) u) = Some ?p" by simp
    with pne si have hu: "hit (host_ok w) (cache st') kind u"
      by (simp add: hit_def truthy_def)
    from c' si have "the (cell (cache st') (slot kind) (ident (host_ok w) kind u)) = ?p" by simp
    with k h hu o show ?thesis by simp
  qed
qed

lemma download_listed_no_success:
  "download_listed w kind ad dir i us (st, acc) = (r, st')
     \<Longrightarrow> \<forall>a \<in> set (new_attempts st st'). \<not> snd (snd a)
     \<Longrightarrow> cache st' = cache st"
proof (induction us arbitrary: st acc i)
  case Nil
  then show ?case by simp
next
  case (Cons u us)
  show ?case
  proof (cases "hit (host_ok w) (cache st) kind u")
    case True
    from Cons.prems(1) show ?thesis
      unfolding download_listed_hit_step [OF True] using Cons.prems(2) by (rule Cons.IH)
  next
    case False
    show ?thesis
    proof (cases "generate_filename w u kind ad i")
      case (Inl e)
      with Cons.prems(1) show ?thesis
        unfolding download_listed_miss_step [OF False] by simp
    next
      case (Inr fn)
      let ?p = "path_join dir [kind @ ''s'', fn]"
      obtain success st1 where t: "try_download w u ?p st = (success, st1)"
        by (cases "try_download w u ?p st")
      let ?st2 = "st1\<lparr>cache := register (cache st1) (kind @ ''s'') (normalize_url (host_ok w) u) ?p\<rparr>"
      from Cons.prems(1) Inr t
      have run: "(if success then download_listed w kind ad dir (Suc i) us (?st2, acc @ [?p])
               else download_listed w kind ad dir (Suc i) us (st1, acc)) = (r, st')"
        unfolding download_listed_miss_step [OF False] by simp
      have ext: "extends st1 st'"
      proof (cases success)
        case True
        with run download_listed_extends [of w kind ad dir "Suc i" us ?st2 "acc @ [?p]" r st']
        show ?thesis by (simp add: extends_def)
      next
        case False
        with run download_listed_extends [of w kind ad dir "Suc i" us st1 acc r st']
        show ?thesis by simp
      qed
      from new_attempts_after_try [OF t ext] Cons.prems(2)
      have fail: "\<not> success" and rest: "\<forall>a \<in> set (new_attempts st1 st'). \<not> snd (snd a)"
        by simp_all
      from run fail have "download_listed w kind ad dir (Suc i) us (st1, acc) = (r, st')" by simp
      from Cons.IH [OF this rest] try_download_facts(2) [OF t] show ?thesis by simp
    qed
  qed
qed

lemma add_to_groups_well_grouped:
  assumes "well_grouped ok groups"
  shows "well_grouped ok (add_to_groups ok groups u)"
proof (cases "get_video_base_path ok u \<notin> fst ` set groups")
  case True
  then have "add_to_groups ok groups u = groups @ [(get_video_base_path ok u, [u])]"
    by (simp add: add_to_groups_def)
  with assms show ?thesis by (simp add: well_grouped_def)
next
  case False
  let ?b = "get_video_base_path ok u"
  let ?f = "\<lambda>g. if fst g = ?b then (fst g, snd g @ [u]) else g"
  have m: "add_to_groups ok groups u = map ?f groups"
    using False by (simp add: add_to_groups_def case_prod_beta)
  have step: "snd (?f g) \<noteq> [] \<and> (\<forall>x \<in> set (snd (?f g)). get_video_base_path ok x = fst (?f g))"
    if "g \<in> set groups" for g
  proof -
    from assms that have g: "snd g \<noteq> []" "\<forall>x \<in> set (snd g). get_video_base_path ok x = fst g"
      by (simp_all add: well_grouped_def)
    show ?thesis
    proof (cases "fst g = ?b")
      case True
      with g show ?thesis by simp
    next
      case False
      with g show ?thesis by simp
    qed
  qed
  show ?thesis unfolding m well_grouped_def
  proof
    fix g' assume "g' \<in> set (map ?f groups)"
    then have "g' \<in> ?f ` set groups" by (simp only: set_map)
    then obtain g where g: "g \<in> set groups" and g': "g' = ?f g" by (rule imageE)
    from step [OF g] show "snd g' \<noteq> [] \<and> (\<forall>u \<in> set (snd g'). get_video_base_path ok u = fst g')"
      unfolding g' .
  qed
qed

lemma foldl_add_to_groups:
  "well_grouped ok groups \<Longrightarrow> well_grouped ok (foldl (add_to_groups ok) groups urls)"
  by (induction urls arbitrary: groups) (simp_all add: add_to_groups_well_grouped)

lemma video_groups_well_grouped: "well_grouped ok (video_groups ok urls)"
  unfolding video_groups_def by (rule foldl_add_to_groups) (simp add: well_grouped_def)

lemma well_grouped_Cons:
  "well_grouped ok ((b, us) # gs) \<Longrightarrow>
     us \<noteq> [] \<and> get_video_base_path ok (hd us) = b \<and> well_grouped ok gs"
  by (cases us) (auto simp: well_grouped_def)

lemma video_first: "us \<noteq> [] \<Longrightarrow> index0 us = Inr (hd us)"
  by (cases us) (simp_all add: index0_def)

lemma video_lookup:
  assumes "get_video_base_path ok first = b"
  shows "is_duplicate_asset ok c first ''video''
           = (case cell c ''videos'' b of Some p \<Rightarrow> (True, Some p) | None \<Rightarrow> (False, None))"
  unfolding assms [symmetric] by (simp add: is_duplicate_asset_def)

lemma download_videos_hit_step:
  assumes "us \<noteq> []" "get_video_base_path (host_ok w) (hd us) = b"
    and "truthy (cell (cache st) ''videos'' b)"
  shows "download_videos w ad dir ((b, us) # gs) (st, acc)
           = download_videos w ad dir gs (st, acc @ [the (cell (cache st) ''videos'' b)])"
proof -
  from assms(3) obtain p where p: "cell (cache st) ''videos'' b = Some p" "truthy (Some p)"
    by (cases "cell (cache st) ''videos'' b") (auto simp: truthy_def)
  note l = video_first [OF assms(1)] video_lookup [OF assms(2), of "cache st"]
  show ?thesis
    by (simp only: download_videos.simps l p sum.case option.case prod.case Let_def
        simp_thms if_True option.sel)
qed

lemma download_videos_miss_step:
  assumes "us \<noteq> []" "get_video_base_path (host_ok w) (hd us) = b"
    and "\<not> truthy (cell (cache st) ''videos'' b)"
  shows "download_videos w ad dir ((b, us) # gs) (st, acc)
           = (case best_url us of
                Inl e \<Rightarrow> (Inl e, st)
              | Inr best \<Rightarrow>
                  (case generate_filename w best ''video'' ad (length acc + 1) of
                     Inl e \<Rightarrow> (Inl e, st)
                   | Inr fn \<Rightarrow>
                       (case try_download w best (path_join dir [''videos'', fn]) st of
                          (success, st1) \<Rightarrow>
                            if success
                            then download_videos w ad dir gs
                                   (st1\<lparr>cache := register (cache st1) ''videos'' b
                                          (path_join dir [''videos'', fn])\<rparr>,
                                    acc @ [path_join dir [''videos'', fn]])
                            else download_videos w ad dir gs (st1, acc))))"
proof -
  note l = video_first [OF assms(1)] video_lookup [OF assms(2), of "cache st"]
  obtain d e where de: "(case cell (cache st) ''videos'' b of
      Some p \<Rightarrow> (True, Some p) | None \<Rightarrow> (False, None)) = (d, e)"
    by (cases "case cell (cache st) ''videos'' b of
      Some p \<Rightarrow> (True, Some p) | None \<Rightarrow> (False, None)")
  with assms(3) have c: "(d \<and> truthy e) = False"
    by (cases "cell (cache st) ''videos'' b") auto
  show ?thesis
    by (simp only: download_videos.simps l de sum.case prod.case c if_False Let_def)
qed

lemma download_videos_extends:
  "well_grouped (host_ok w) gs \<Longrightarrow> download_videos w ad dir gs (st, acc) = (r, st')
     \<Longrightarrow> extends st st'"
proof (induction gs arbitrary: st acc)
  case Nil
  then show ?case by (simp add: extends_refl)
next
  case (Cons g gs)
  obtain b us where g: "g = (b, us)" by (cases g)
  from well_grouped_Cons [OF Cons.prems(1) [unfolded g]]
  have us: "us \<noteq> []" and hd: "get_video_base_path (host_ok w) (hd us) = b"
    and wg: "well_grouped (host_ok w) gs" by simp_all
  show ?case
  proof (cases "truthy (cell (cache st) ''videos'' b)")
    case True
    from Cons.prems(2) show ?thesis
      unfolding g download_videos_hit_step [OF us hd True] by (rule Cons.IH [OF wg])
  next
    case False
    note step = download_videos_miss_step [OF us hd False]
    show ?thesis
    proof (cases "best_url us")
      case (Inl e)
      with Cons.prems(2) show ?thesis unfolding g step by (simp add: extends_refl)
    next
      case best: (Inr best)
      show ?thesis
      proof (cases "generate_filename w best ''video'' ad (length acc + 1)")
        case (Inl e)
        with Cons.prems(2) best show ?thesis unfolding g step by (simp add: extends_refl)
      next
        case (Inr fn)
        let ?p = "path_join dir [''videos'', fn]"
        obtain success st1 where t: "try_download w best ?p st = (success, st1)"
          by (cases "try_download w best ?p st")
        from try_download_facts(1) [OF t] have e1: "extends st st1" by (simp add: extends_def)
        let ?st2 = "st1\<lparr>cache := register (cache st1) ''videos'' b ?p\<rparr>"
        from Cons.prems(2) best Inr t
        have run: "(if success then download_videos w ad dir gs (?st2, acc @ [?p])
                    else download_videos w ad dir gs (st1, acc)) = (r, st')"
          unfolding g step by simp
        have "extends st1 st'"
        proof (cases success)
          case True
          with run Cons.IH [OF wg, of ?st2 "acc @ [?p]"] show ?thesis by (simp add: extends_def)
        next
          case False
          with run Cons.IH [OF wg, of st1 acc] show ?thesis by simp
        qed
        with e1 show ?thesis by (rule extends_trans)
      qed
    qed
  qed
qed

lemma download_videos_hits:
  "well_grouped (host_ok w) gs \<Longrightarrow> \<forall>g \<in> set gs. truthy (cell (cache st) ''videos'' (fst g)) \<Longrightarrow>
     download_videos w ad dir gs (st, acc)
       = (Inr (acc @ map (\<lambda>g. the (cell (cache st) ''videos'' (fst g))) gs), st)"
proof (induction gs arbitrary: acc)
  case Nil
  show ?case by simp
next
  case (Cons g gs)
  obtain b us where g: "g = (b, us)" by (cases g)
  from well_grouped_Cons [OF Cons.prems(1) [unfolded g]]
  have us: "us \<noteq> []" and hd: "get_video_base_path (host_ok w) (hd us) = b"
    and wg: "well_grouped (host_ok w) gs" by simp_all
  from Cons.prems(2) g have t: "truthy (cell (cache st) ''videos'' b)"
    and rest: "\<forall>g \<in> set gs. truthy (cell (cache st) ''videos'' (fst g))" by simp_all
  from Cons.IH [OF wg rest] show ?case
    unfolding g download_videos_hit_step [OF us hd t] by simp
qed

lemma download_videos_first:
  "well_grouped (host_ok w) gs
     \<Longrightarrow> download_videos w ad dir gs (st, acc) = (Inr out, st')
     \<Longrightarrow> \<forall>a \<in> set (new_attempts st st'). snd (snd a)
     \<Longrightarrow> keeps (cache st) (cache st')
         \<and> (\<forall>g \<in> set gs. truthy (cell (cache st') ''videos'' (fst g)))
         \<and> out = acc @ map (\<lambda>g. the (cell (cache st') ''videos'' (fst g))) gs"
proof (induction gs arbitrary: st acc)
  case Nil
  then show ?case by (simp add: keeps_refl)
next
  case (Cons g gs)
  obtain b us where g: "g = (b, us)" by (cases g)
  from well_grouped_Cons [OF Cons.prems(1) [unfolded g]]
  have us: "us \<noteq> []" and hd: "get_video_base_path (host_ok w) (hd us) = b"
    and wg: "well_grouped (host_ok w) gs" by simp_all
  show ?case
  proof (cases "truthy (cell (cache st) ''videos'' b)")
    case True
    let ?v = "the (cell (cache st) ''videos'' b)"
    from Cons.prems(2) have run: "download_videos w ad dir gs (st, acc @ [?v]) = (Inr out, st')"
      unfolding g download_videos_hit_step [OF us hd True] .
    from Cons.IH [OF wg run Cons.prems(3)]
    have k: "keeps (cache st) (cache st')"
      and h: "\<forall>g \<in> set gs. truthy (cell (cache st') ''videos'' (fst g))"
      and o: "out = (acc @ [?v]) @ map (\<lambda>g. the (cell (cache st') ''videos'' (fst g))) gs"
      by simp_all
    from keeps_cell [OF k True] have same: "cell (cache st') ''videos'' b = cell (cache st) ''videos'' b" .
    with True k h o show ?thesis unfolding g by simp
  next
    case False
    note step = download_videos_miss_step [OF us hd False]
    obtain best where best: "best_url us = Inr best"
      using Cons.prems(2) unfolding g step by (cases "best_url us") auto
    obtain fn where fn: "generate_filename w best ''video'' ad (length acc + 1) = Inr fn"
      using Cons.prems(2) best unfolding g step
      by (cases "generate_filename w best ''video'' ad (length acc + 1)") auto
    let ?p = "path_join dir [''videos'', fn]"
    obtain success st1 where t: "try_download w best ?p st = (success, st1)"
      by (cases "try_download w best ?p st")
    let ?st2 = "st1\<lparr>cache := register (cache st1) ''videos'' b ?p\<rparr>"
    from Cons.prems(2) best fn t
    have run: "(if success then download_videos w ad dir gs (?st2, acc @ [?p])
                else download_videos w ad dir gs (st1, acc)) = (Inr out, st')"
      unfolding g step by simp
    have ext: "extends st1 st'"
    proof (cases success)
      case True
      with run download_videos_extends [OF wg, of ad dir ?st2 "acc @ [?p]" "Inr out" st']
      show ?thesis by (simp add: extends_def)
    next
      case False
      with run download_videos_extends [OF wg, of ad dir st1 acc "Inr out" st']
      show ?thesis by simp
    qed
    from new_attempts_after_try [OF t ext] Cons.prems(3)
    have succ: success and rest: "\<forall>a \<in> set (new_attempts st1 st'). snd (snd a)"
      by simp_all
    from run succ have run2: "download_videos w ad dir gs (?st2, acc @ [?p]) = (Inr out, st')"
      by simp
    have "new_attempts ?st2 st' = new_attempts st1 st'" by (simp add: new_attempts_def)
    with rest have rest2: "\<forall>a \<in> set (new_attempts ?st2 st'). snd (snd a)" by simp
    from Cons.IH [OF wg run2 rest2]
    have k2: "keeps (cache ?st2) (cache st')"
      and h: "\<forall>g \<in> set gs. truthy (cell (cache st') ''videos'' (fst g))"
      and o: "out = (acc @ [?p]) @ map (\<lambda>g. the (cell (cache st') ''videos'' (fst g))) gs"
      by simp_all
    from False have "keeps (cache st) (register (cache st) ''videos'' b ?p)"
      by (rule keeps_register)
    with try_download_facts(2) [OF t] have k1: "keeps (cache st) (cache ?st2)" by simp
    from k1 k2 have k: "keeps (cache st) (cache st')" by (rule keeps_trans)
    have pne: "?p \<noteq> []" by (rule path_join_nonempty) simp
    have c2: "cell (cache ?st2) ''videos'' b = Some ?p"
      by (simp add: cell_register cache_key_def)
    with pne have "truthy (cell (cache ?st2) ''videos'' b)" by (simp add: truthy_def)
    from keeps_cell [OF k2 this] c2 have c': "cell (cache st') ''videos'' b = Some ?p" by simp
    with pne have "truthy (cell (cache st') ''videos'' b)" by (simp add: truthy_def)
    with c' k h o show ?thesis unfolding g by simp
  qed
qed

lemma download_videos_no_success:
  "well_grouped (host_ok w) gs
     \<Longrightarrow> download_videos w ad dir gs (st, acc) = (r, st')
     \<Longrightarrow> \<forall>a \<in> set (new_attempts st st'). \<not> snd (snd a)
     \<Longrightarrow> cache st' = cache st"
proof (induction gs arbitrary: st acc)
  case Nil
  then show ?case by simp
next
  case (Cons g gs)
  obtain b us where g: "g = (b, us)" by (cases g)
  from well_grouped_Cons [OF Cons.prems(1) [unfolded g]]
  have us: "us \<noteq> []" and hd: "get_video_base_path (host_ok w) (hd us) = b"
    and wg: "well_grouped (host_ok w) gs" by simp_all
  show ?case
  proof (cases "truthy (cell (cache st) ''videos'' b)")
    case True
    from Cons.prems(2) show ?thesis
      unfolding g download_videos_hit_step [OF us hd True]
      using Cons.prems(3) by (rule Cons.IH [OF wg])
  next
    case False
    note step = download_videos_miss_step [OF us hd False]
    show ?thesis
    proof (cases "best_url us")
      case (Inl e)
      with Cons.prems(2) show ?thesis unfolding g step by simp
    next
      case best: (Inr best)
      show ?thesis
      proof (cases "generate_filename w best ''video'' ad (length acc + 1)")
        case (Inl e)
        with Cons.prems(2) best show ?thesis unfolding g step by simp
      next
        case (Inr fn)
        let ?p = "path_join dir [''videos'', fn]"
        obtain success st1 where t: "try_download w best ?p st = (success, st1)"
          by (cases "try_download w best ?p st")
        let ?st2 = "st1\<lparr>cache := register (cache st1) ''videos'' b ?p\<rparr>"
        from Cons.prems(2) best Inr t
        have run: "(if success then download_videos w ad dir gs (?st2, acc @ [?p])
                    else download_videos w ad dir gs (st1, acc)) = (r, st')"
          unfolding g step by simp
        have ext: "extends st1 st'"
        proof (cases success)
          case True
          with run download_videos_extends [OF wg, of ad dir ?st2 "acc @ [?p]" r st']
          show ?thesis by (simp add: extends_def)
        next
          case False
          with run download_videos_extends [OF wg, of ad dir st1 acc r st']
          show ?thesis by simp
        qed
        from new_attempts_after_try [OF t ext] Cons.prems(3)
        have fail: "\<not> success" and rest: "\<forall>a \<in> set (new_attempts st1 st'). \<not> snd (snd a)"
          by simp_all
        from run fail have "download_videos w ad dir gs (st1, acc) = (r, st')" by simp
        from Cons.IH [OF wg this rest] try_download_facts(2) [OF t] show ?thesis by simp
      qed
    qed
  qed
qed

lemma add_to_groups_keys:
  "fst ` set (add_to_groups ok gs u) = insert (get_video_base_path ok u) (fst ` set gs)"
proof (cases "get_video_base_path ok u \<notin> fst ` set gs")
  case True
  then show ?thesis by (simp add: add_to_groups_def)
next
  case False
  let ?b = "get_video_base_path ok u"
  let ?f = "\<lambda>g. if fst g = ?b then (fst g, snd g @ [u]) else g"
  have m: "add_to_groups ok gs u = map ?f gs"
    using False by (simp add: add_to_groups_def case_prod_beta)
  have "fst (?f g) = fst g" for g :: "string \<times> string list" by simp
  then have "map fst (map ?f gs) = map fst gs" by (simp only: map_map o_def)
  then have "fst ` set (map ?f gs) = fst ` set gs" by (metis set_map)
  with False show ?thesis unfolding m by blast
qed

lemma foldl_add_to_groups_keys:
  "fst ` set (foldl (add_to_groups ok) gs urls)
     = fst ` set gs \<union> get_video_base_path ok ` set urls"
  by (induction urls arbitrary: gs) (simp_all add: add_to_groups_keys)

lemma video_groups_keys:
  "fst ` set (video_groups ok urls) = get_video_base_path ok ` set urls"
  by (simp add: video_groups_def foldl_add_to_groups_keys)

lemma video_groups_hit:
  "(\<forall>g \<in> set (video_groups ok urls). truthy (cell c ''videos'' (fst g)))
     = (\<forall>u \<in> set urls. hit ok c ''video'' u)"
proof -
  have "(\<forall>g \<in> set (video_groups ok urls). truthy (cell c ''videos'' (fst g)))
      = (\<forall>b \<in> fst ` set (video_groups ok urls). truthy (cell c ''videos'' b))"
    by blast
  also have "\<dots> = (\<forall>u \<in> set urls. truthy (cell c ''videos'' (get_video_base_path ok u)))"
    by (simp only: video_groups_keys ball_simps)
  finally show ?thesis by (simp add: hit_def slot_def ident_def)
qed

lemma download_logo_hit:
  assumes "truthy lg" "hit (host_ok w) (cache st) ''logo'' (the lg)"
  shows "download_logo w ad dir lg st
           = (Inr (cell (cache st) ''logos'' (normalize_url (host_ok w) (the lg))), st)"
proof -
  obtain d e where de: "is_duplicate_asset (host_ok w) (cache st) (the lg) ''logo'' = (d, e)"
    by (cases "is_duplicate_asset (host_ok w) (cache st) (the lg) ''logo''")
  with is_duplicate_asset_hit [of "host_ok w" "cache st" "the lg" "''logo''"] assms(2)
  have c: "d \<and> truthy e" by simp
  from is_duplicate_asset_path [OF assms(2)] de
  have "e = cell (cache st) ''logos'' (normalize_url (host_ok w) (the lg))"
    by (simp add: slot_def ident_def)
  with c de assms(1) show ?thesis by (simp add: download_logo_def)
qed

lemma download_logo_miss:
  assumes "truthy lg" "\<not> hit (host_ok w) (cache st) ''logo'' (the lg)"
  shows "download_logo w ad dir lg st
           = (case generate_filename w (the lg) ''logo'' ad 0 of
                Inl e \<Rightarrow> (Inl e, st)
              | Inr fn \<Rightarrow>
                  (case try_download w (the lg) (path_join dir [''logo'', fn]) st of
                     (success, st1) \<Rightarrow>
                       if success
                       then (Inr (Some (path_join dir [''logo'', fn])),
                             st1\<lparr>cache := register (cache st1) ''logos''
                                    (normalize_url (host_ok w) (the lg))
                                    (path_join dir [''logo'', fn])\<rparr>)
                       else (Inr None, st1)))"
proof -
  obtain d e where de: "is_duplicate_asset (host_ok w) (cache st) (the lg) ''logo'' = (d, e)"
    by (cases "is_duplicate_asset (host_ok w) (cache st) (the lg) ''logo''")
  with is_duplicate_asset_hit [of "host_ok w" "cache st" "the lg" "''logo''"] assms(2)
  have c: "(d \<and> truthy e) = False" by simp
  from assms(1) have t: "(\<not> truthy lg) = False" by simp
  show ?thesis
    by (simp only: download_logo_def de prod.case c t if_False Let_def)
qed

lemma download_logo_extends:
  assumes "download_logo w ad dir lg st = (r, st')"
  shows "extends st st'"
proof (cases "truthy lg")
  case False
  with assms show ?thesis by (simp add: download_logo_def extends_refl)
next
  case True
  show ?thesis
  proof (cases "hit (host_ok w) (cache st) ''logo'' (the lg)")
    case True
    with assms \<open>truthy lg\<close> show ?thesis by (simp add: download_logo_hit extends_refl)
  next
    case False
    note step = download_logo_miss [OF True False]
    show ?thesis
    proof (cases "generate_filename w (the lg) ''logo'' ad 0")
      case (Inl e)
      with assms show ?thesis unfolding step by (simp add: extends_refl)
    next
      case (Inr fn)
      obtain success st1 where t: "try_download w (the lg) (path_join dir [''logo'', fn]) st
          = (success, st1)"
        by (cases "try_download w (the lg) (path_join dir [''logo'', fn]) st")
      from try_download_facts(1) [OF t] have "attempts st1 = attempts st @ [(the lg, path_join dir [''logo'', fn], success)]" .
      moreover from assms Inr t have "attempts st' = attempts st1"
        unfolding step by (cases success) auto
      ultimately show ?thesis by (simp add: extends_def)
    qed
  qed
qed

lemma download_logo_first:
  assumes "download_logo w ad dir lg st = (Inr out, st')"
    and "\<forall>a \<in> set (new_attempts st st'). snd (snd a)"
  shows "keeps (cache st) (cache st')
     \<and> (truthy lg \<longrightarrow> hit (host_ok w) (cache st') ''logo'' (the lg))
     \<and> out = (if truthy lg then cell (cache st') ''logos'' (normalize_url (host_ok w) (the lg))
              else None)"
proof (cases "truthy lg")
  case False
  with assms(1) show ?thesis by (simp add: download_logo_def keeps_refl)
next
  case True
  show ?thesis
  proof (cases "hit (host_ok w) (cache st) ''logo'' (the lg)")
    case True
    from assms(1) [symmetric] download_logo_hit [OF \<open>truthy lg\<close> True, of ad dir]
    have "(Inr out :: py_error + string option, st')
        = (Inr (cell (cache st) ''logos'' (normalize_url (host_ok w) (the lg))), st)"
      by (rule trans)
    then have o: "out = cell (cache st) ''logos'' (normalize_url (host_ok w) (the lg))"
      and s: "st' = st"
      by auto
    show ?thesis unfolding s o using True \<open>truthy lg\<close> by (simp add: keeps_refl)
  next
    case False
    note step = download_logo_miss [OF True False]
    obtain fn where fn: "generate_filename w (the lg) ''logo'' ad 0 = Inr fn"
      using assms(1) unfolding step by (cases "generate_filename w (the lg) ''logo'' ad 0") auto
    let ?p = "path_join dir [''logo'', fn]"
    let ?n = "normalize_url (host_ok w) (the lg)"
    obtain success st1 where t: "try_download w (the lg) ?p st = (success, st1)"
      by (cases "try_download w (the lg) ?p st")
    from assms(1) fn t have a': "attempts st' = attempts st1"
      unfolding step by (cases success) auto
    with try_download_facts(1) [OF t] have "new_attempts st st' = [(the lg, ?p, success)]"
      by (simp add: new_attempts_def)
    with assms(2) have succ: success by simp
    with assms(1) fn t have st': "st' = st1\<lparr>cache := register (cache st1) ''logos'' ?n ?p\<rparr>"
      and out: "out = Some ?p"
      unfolding step by simp_all
    from False have "\<not> truthy (cell (cache st) ''logos'' ?n)"
      by (simp add: hit_def slot_def ident_def)
    then have "keeps (cache st) (register (cache st) ''logos'' ?n ?p)" by (rule keeps_register)
    with try_download_facts(2) [OF t] st' have k: "keeps (cache st) (cache st')" by simp
    have pne: "?p \<noteq> []" by (rule path_join_nonempty) simp
    have c: "cell (cache st') ''logos'' ?n = Some ?p"
      unfolding st' by (simp add: cell_register cache_key_def)
    with pne have "hit (host_ok w) (cache st') ''logo'' (the lg)"
      by (simp add: hit_def slot_def ident_def truthy_def)
    with k c out True show ?thesis by simp
  qed
qed

lemma download_logo_no_success:
  assumes "download_logo w ad dir lg st = (r, st')"
    and "\<forall>a \<in> set (new_attempts st st'). \<not> snd (snd a)"
  shows "cache st' = cache st"
proof (cases "truthy lg")
  case False
  with assms(1) show ?thesis by (simp add: download_logo_def)
next
  case True
  show ?thesis
  proof (cases "hit (host_ok w) (cache st) ''logo'' (the lg)")
    case True
    with assms(1) \<open>truthy lg\<close> show ?thesis by (simp add: download_logo_hit)
  next
    case False
    note step = download_logo_miss [OF True False]
    show ?thesis
    proof (cases "generate_filename w (the lg) ''logo'' ad 0")
      case (Inl e)
      with assms(1) show ?thesis unfolding step by simp
    next
      case (Inr fn)
      let ?p = "path_join dir [''logo'', fn]"
      obtain success st1 where t: "try_download w (the lg) ?p st = (success, st1)"
        by (cases "try_download w (the lg) ?p st")
      from assms(1) Inr t have a': "attempts st' = attempts st1"
        unfolding step by (cases success) auto
      with try_download_facts(1) [OF t] have "new_attempts st st' = [(the lg, ?p, success)]"
        by (simp add: new_attempts_def)
      with assms(2) have "\<not> success" by simp
      with assms(1) Inr t try_download_facts(2) [OF t] show ?thesis
        unfolding step by simp
    qed
  qed
qed

lemma run_phases:
  assumes "download_ad_assets_with_dedup w ad lg b dir st = (r, st')"
  obtains (logo_raised) e where "download_logo w ad (path_join dir [ad]) lg st = (Inl e, st')" "r = Inl e"
  | (images_raised) l st1 e where
      "download_logo w ad (path_join dir [ad]) lg st = (Inr l, st1)"
      "download_listed w ''image'' ad (path_join dir [ad]) 1 (images b) (st1, []) = (Inl e, st')"
      "r = Inl e"
  | (videos_raised) l st1 im st2 e where
      "download_logo w ad (path_join dir [ad]) lg st = (Inr l, st1)"
      "download_listed w ''image'' ad (path_join dir [ad]) 1 (images b) (st1, []) = (Inr im, st2)"
      "download_videos w ad (path_join dir [ad]) (video_groups (host_ok w) (videos b)) (st2, [])
         = (Inl e, st')"
      "r = Inl e"
  | (posters_raised) l st1 im st2 vi st3 e where
      "download_logo w ad (path_join dir [ad]) lg st = (Inr l, st1)"
      "download_listed w ''image'' ad (path_join dir [ad]) 1 (images b) (st1, []) = (Inr im, st2)"
      "download_videos w ad (path_join dir [ad]) (video_groups (host_ok w) (videos b)) (st2, [])
         = (Inr vi, st3)"
      "download_listed w ''poster'' ad (path_join dir [ad]) 1 (posters b) (st3, []) = (Inl e, st')"
      "r = Inl e"
  | (returned) l st1 im st2 vi st3 po where
      "download_logo w ad (path_join dir [ad]) lg st = (Inr l, st1)"
      "download_listed w ''image'' ad (path_join dir [ad]) 1 (images b) (st1, []) = (Inr im, st2)"
      "download_videos w ad (path_join dir [ad]) (video_groups (host_ok w) (videos b)) (st2, [])
         = (Inr vi, st3)"
      "download_listed w ''poster'' ad (path_join dir [ad]) 1 (posters b) (st3, []) = (Inr po, st')"
      "r = Inr \<lparr>images = im, videos = vi, posters = po, logo = l\<rparr>"
proof -
  let ?d = "path_join dir [ad]"
  obtain r1 st1 where p1: "download_logo w ad ?d lg st = (r1, st1)"
    by (cases "download_logo w ad ?d lg st")
  show ?thesis
  proof (cases r1)
    case (Inl e)
    with assms p1 logo_raised show ?thesis
      by (simp add: download_ad_assets_with_dedup_def Let_def)
  next
    case l: (Inr l)
    obtain r2 st2 where p2: "download_listed w ''image'' ad ?d 1 (images b) (st1, []) = (r2, st2)"
      by (cases "download_listed w ''image'' ad ?d 1 (images b) (st1, [])")
    show ?thesis
    proof (cases r2)
      case (Inl e)
      with assms p1 l p2 images_raised show ?thesis
        by (simp add: download_ad_assets_with_dedup_def Let_def)
    next
      case im: (Inr im)
      obtain r3 st3 where p3: "download_videos w ad ?d (video_groups (host_ok w) (videos b))
          (st2, []) = (r3, st3)"
        by (cases "download_videos w ad ?d (video_groups (host_ok w) (videos b)) (st2, [])")
      show ?thesis
      proof (cases r3)
        case (Inl e)
        with assms p1 l p2 im p3 videos_raised show ?thesis
          by (simp add: download_ad_assets_with_dedup_def Let_def)
      next
        case vi: (Inr vi)
        obtain r4 st4 where p4: "download_listed w ''poster'' ad ?d 1 (posters b) (st3, [])
            = (r4, st4)"
          by (cases "download_listed w ''poster'' ad ?d 1 (posters b) (st3, [])")
        show ?thesis
        proof (cases r4)
          case (Inl e)
          with assms p1 l p2 im p3 vi p4 posters_raised show ?thesis
            by (simp add: download_ad_assets_with_dedup_def Let_def)
        next
          case (Inr po)
          with assms p1 l p2 im p3 vi p4 returned show ?thesis
            by (simp add: download_ad_assets_with_dedup_def Let_def)
        qed
      qed
    qed
  qed
qed

lemma cached_run:
  assumes "all_cached w (cache st) lg b"
  shows "download_ad_assets_with_dedup w ad lg b dir st
           = (Inr (cached_paths w (cache st) lg b), st)"
proof -
  let ?d = "path_join dir [ad]" and ?ok = "host_ok w" and ?c = "cache st"
  from assms have hl: "truthy lg \<longrightarrow> hit ?ok ?c ''logo'' (the lg)"
    and hi: "\<forall>u \<in> set (images b). hit ?ok ?c ''image'' u"
    and hv: "\<forall>u \<in> set (videos b). hit ?ok ?c ''video'' u"
    and hp: "\<forall>u \<in> set (posters b). hit ?ok ?c ''poster'' u"
    by (simp_all add: all_cached_def)
  have p1: "download_logo w ad ?d lg st
      = (Inr (if truthy lg then cell ?c ''logos'' (normalize_url ?ok (the lg)) else None), st)"
  proof (cases "truthy lg")
    case True
    with hl download_logo_hit [of lg w st ad ?d] show ?thesis by simp
  next
    case False
    then show ?thesis by (simp add: download_logo_def)
  qed
  have p2: "download_listed w ''image'' ad ?d 1 (images b) (st, [])
      = (Inr (map (\<lambda>u. the (cell ?c ''images'' (normalize_url ?ok u))) (images b)), st)"
    using download_listed_hits [OF hi, of ad ?d 1 "[]"] by (simp add: slot_def ident_def)
  have p3: "download_videos w ad ?d (video_groups ?ok (videos b)) (st, [])
      = (Inr (map (\<lambda>g. the (cell ?c ''videos'' (fst g))) (video_groups ?ok (videos b))), st)"
    using download_videos_hits [OF video_groups_well_grouped, of w "videos b" st ad ?d "[]"] hv
    by (simp add: video_groups_hit)
  have p4: "download_listed w ''poster'' ad ?d 1 (posters b) (st, [])
      = (Inr (map (\<lambda>u. the (cell ?c ''posters'' (normalize_url ?ok u))) (posters b)), st)"
    using download_listed_hits [OF hp, of ad ?d 1 "[]"] by (simp add: slot_def ident_def)
  show ?thesis
    by (simp only: download_ad_assets_with_dedup_def Let_def p1 p2 p3 p4 cached_paths_def
        prod.case sum.case)
qed

lemma map_kept_cells:
  assumes "keeps c c'" "\<forall>x \<in> set xs. truthy (cell c key (f x))"
  shows "map (\<lambda>x. the (cell c' key (f x))) xs = map (\<lambda>x. the (cell c key (f x))) xs"
proof (rule map_cong [OF refl])
  fix x assume "x \<in> set xs"
  with assms(2) have "truthy (cell c key (f x))" by simp
  from keeps_cell [OF assms(1) this] show "the (cell c' key (f x)) = the (cell c key (f x))"
    by simp
qed

lemma first_run:
  assumes run: "download_ad_assets_with_dedup w ad lg b dir st = (Inr d, st')"
    and ok: "\<forall>a \<in> set (new_attempts st st'). snd (snd a)"
  shows "all_cached w (cache st') lg b \<and> d = cached_paths w (cache st') lg b"
  using run
proof (cases rule: run_phases)
  case (returned l st1 im st2 vi st3 po)
  let ?d = "path_join dir [ad]" and ?ok = "host_ok w"
  note wg = video_groups_well_grouped [of ?ok "videos b"]
  from download_logo_extends [OF returned(1)] have e1: "extends st st1" .
  from download_listed_extends [OF returned(2)] have e2: "extends st1 st2" .
  from download_videos_extends [OF wg returned(3)] have e3: "extends st2 st3" .
  from download_listed_extends [OF returned(4)] have e4: "extends st3 st'" .
  note e13 = extends_trans [OF e1 extends_trans [OF e2 e3]]
  have "new_attempts st st' = new_attempts st st1 @ new_attempts st1 st2
      @ new_attempts st2 st3 @ new_attempts st3 st'"
    using new_attempts_trans [OF e13 e4] new_attempts_trans [OF e1 extends_trans [OF e2 e3]]
      new_attempts_trans [OF e2 e3]
    by simp
  with ok have ok1: "\<forall>a \<in> set (new_attempts st st1). snd (snd a)"
    and ok2: "\<forall>a \<in> set (new_attempts st1 st2). snd (snd a)"
    and ok3: "\<forall>a \<in> set (new_attempts st2 st3). snd (snd a)"
    and ok4: "\<forall>a \<in> set (new_attempts st3 st'). snd (snd a)"
    by simp_all
  from download_logo_first [OF returned(1) ok1]
  have k1: "keeps (cache st) (cache st1)"
    and h1: "truthy lg \<longrightarrow> hit ?ok (cache st1) ''logo'' (the lg)"
    and o1: "l = (if truthy lg then cell (cache st1) ''logos'' (normalize_url ?ok (the lg))
                  else None)"
    by simp_all
  have ki: "cache_key (''image'' @ ''s'')" and kp: "cache_key (''poster'' @ ''s'')"
    by (simp_all add: cache_key_def)
  from download_listed_first [OF ki _ returned(2) ok2]
  have k2: "keeps (cache st1) (cache st2)"
    and h2: "\<forall>u \<in> set (images b). hit ?ok (cache st2) ''image'' u"
    and o2: "im = map (\<lambda>u. the (cell (cache st2) ''images'' (normalize_url ?ok u))) (images b)"
    by (simp_all add: slot_def ident_def)
  from download_videos_first [OF wg returned(3) ok3]
  have k3: "keeps (cache st2) (cache st3)"
    and h3: "\<forall>g \<in> set (video_groups ?ok (videos b)). truthy (cell (cache st3) ''videos'' (fst g))"
    and o3: "vi = map (\<lambda>g. the (cell (cache st3) ''videos'' (fst g))) (video_groups ?ok (videos b))"
    by simp_all
  from download_listed_first [OF kp _ returned(4) ok4]
  have k4: "keeps (cache st3) (cache st')"
    and h4: "\<forall>u \<in> set (posters b). hit ?ok (cache st') ''poster'' u"
    and o4: "po = map (\<lambda>u. the (cell (cache st') ''posters'' (normalize_url ?ok u))) (posters b)"
    by (simp_all add: slot_def ident_def)
  note k24 = keeps_trans [OF k3 k4]
  note k14 = keeps_trans [OF k2 k24]
  have hl: "truthy lg \<longrightarrow> hit ?ok (cache st') ''logo'' (the lg)"
    using h1 keeps_hit [OF k14] by blast
  have l': "l = (if truthy lg then cell (cache st') ''logos'' (normalize_url ?ok (the lg))
                 else None)"
  proof (cases "truthy lg")
    case True
    with h1 have "truthy (cell (cache st1) ''logos'' (normalize_url ?ok (the lg)))"
      by (simp add: hit_def slot_def ident_def)
    from keeps_cell [OF k14 this] o1 True show ?thesis by simp
  next
    case False
    with o1 show ?thesis by simp
  qed
  have hi: "\<forall>u \<in> set (images b). hit ?ok (cache st') ''image'' u"
    using h2 keeps_hit [OF k24] by blast
  from h2 have "\<forall>u \<in> set (images b). truthy (cell (cache st2) ''images'' (normalize_url ?ok u))"
    by (simp add: hit_def slot_def ident_def)
  from map_kept_cells [OF k24 this] o2
  have im': "im = map (\<lambda>u. the (cell (cache st') ''images'' (normalize_url ?ok u))) (images b)"
    by simp
  from h3 keeps_cell [OF k4]
  have hv': "\<forall>g \<in> set (video_groups ?ok (videos b)). truthy (cell (cache st') ''videos'' (fst g))"
    by simp
  then have hv: "\<forall>u \<in> set (videos b). hit ?ok (cache st') ''video'' u"
    by (simp only: video_groups_hit)
  from map_kept_cells [OF k4 h3] o3
  have vi': "vi = map (\<lambda>g. the (cell (cache st') ''videos'' (fst g))) (video_groups ?ok (videos b))"
    by simp
  from hl hi hv h4 have "all_cached w (cache st') lg b" by (simp add: all_cached_def)
  moreover from returned(5) l' im' vi' o4 have "d = cached_paths w (cache st') lg b"
    by (simp add: cached_paths_def)
  ultimately show ?thesis by (rule conjI)
qed simp_all

lemma run_no_success:
  assumes run: "download_ad_assets_with_dedup w ad lg b dir st = (r, st')"
    and no: "\<forall>a \<in> set (new_attempts st st'). \<not> snd (snd a)"
  shows "cache st' = cache st"
  using run
proof (cases rule: run_phases)
  case (logo_raised e)
  from download_logo_no_success [OF logo_raised(1) no] show ?thesis .
next
  case (images_raised l st1 e)
  note e1 = download_logo_extends [OF images_raised(1)]
  note e2 = download_listed_extends [OF images_raised(2)]
  from no new_attempts_trans [OF e1 e2]
  have n1: "\<forall>a \<in> set (new_attempts st st1). \<not> snd (snd a)"
    and n2: "\<forall>a \<in> set (new_attempts st1 st'). \<not> snd (snd a)"
    by simp_all
  from download_logo_no_success [OF images_raised(1) n1]
    download_listed_no_success [OF images_raised(2) n2]
  show ?thesis by simp
next
  case (videos_raised l st1 im st2 e)
  note wg = video_groups_well_grouped [of "host_ok w" "videos b"]
  note e1 = download_logo_extends [OF videos_raised(1)]
  note e2 = download_listed_extends [OF videos_raised(2)]
  note e3 = download_videos_extends [OF wg videos_raised(3)]
  from no new_attempts_trans [OF e1 extends_trans [OF e2 e3]] new_attempts_trans [OF e2 e3]
  have n1: "\<forall>a \<in> set (new_attempts st st1). \<not> snd (snd a)"
    and n2: "\<forall>a \<in> set (new_attempts st1 st2). \<not> snd (snd a)"
    and n3: "\<forall>a \<in> set (new_attempts st2 st'). \<not> snd (snd a)"
    by simp_all
  from download_logo_no_success [OF videos_raised(1) n1]
    download_listed_no_success [OF videos_raised(2) n2]
    download_videos_no_success [OF wg videos_raised(3) n3]
  show ?thesis by simp
next
  case (posters_raised l st1 im st2 vi st3 e)
  note wg = video_groups_well_grouped [of "host_ok w" "videos b"]
  note e1 = download_logo_extends [OF posters_raised(1)]
  note e2 = download_listed_extends [OF posters_raised(2)]
  note e3 = download_videos_extends [OF wg posters_raised(3)]
  note e4 = download_listed_extends [OF posters_raised(4)]
  from no new_attempts_trans [OF e1 extends_trans [OF e2 extends_trans [OF e3 e4]]]
    new_attempts_trans [OF e2 extends_trans [OF e3 e4]] new_attempts_trans [OF e3 e4]
  have n1: "\<forall>a \<in> set (new_attempts st st1). \<not> snd (snd a)"
    and n2: "\<forall>a \<in> set (new_attempts st1 st2). \<not> snd (snd a)"
    and n3: "\<forall>a \<in> set (new_attempts st2 st3). \<not> snd (snd a)"
    and n4: "\<forall>a \<in> set (new_attempts st3 st'). \<not> snd (snd a)"
    by simp_all
  from download_logo_no_success [OF posters_raised(1) n1]
    download_listed_no_success [OF posters_raised(2) n2]
    download_videos_no_success [OF wg posters_raised(3) n3]
    download_listed_no_success [OF posters_raised(4) n4]
  show ?thesis by simp
next
  case (returned l st1 im st2 vi st3 po)
  note wg = video_groups_well_grouped [of "host_ok w" "videos b"]
  note e1 = download_logo_extends [OF returned(1)]
  note e2 = download_listed_extends [OF returned(2)]
  note e3 = download_videos_extends [OF wg returned(3)]
  note e4 = download_listed_extends [OF returned(4)]
  from no new_attempts_trans [OF e1 extends_trans [OF e2 extends_trans [OF e3 e4]]]
    new_attempts_trans [OF e2 extends_trans [OF e3 e4]] new_attempts_trans [OF e3 e4]
  have n1: "\<forall>a \<in> set (new_attempts st st1). \<not> snd (snd a)"
    and n2: "\<forall>a \<in> set (new_attempts st1 st2). \<not> snd (snd a)"
    and n3: "\<forall>a \<in> set (new_attempts st2 st3). \<not> snd (snd a)"
    and n4: "\<forall>a \<in> set (new_attempts st3 st'). \<not> snd (snd a)"
    by simp_all
  from download_logo_no_success [OF returned(1) n1]
    download_listed_no_success [OF returned(2) n2]
    download_videos_no_success [OF wg returned(3) n3]
    download_listed_no_success [OF returned(4) n4]
  show ?thesis by simp
qed

text \<open>
  C5, amended. If a materialization returns and every download it attempted succeeded, a
  second materialization of the same record from the state the first one left attempts no
  download, leaves the cache as it is and returns the same local paths. A materialization
  none of whose downloads succeeded leaves the cache as it was. A materialization that
  finds every candidate in the cache attempts no download and returns the cached paths.
\<close>

theorem C5_second_materialization:
  "(download_ad_assets_with_dedup w ad lg b dir st = (Inr d, st')
      \<and> (\<forall>a \<in> set (new_attempts st st'). snd (snd a))
     \<longrightarrow> download_ad_assets_with_dedup w ad lg b dir st' = (Inr d, st'))
   \<and> (download_ad_assets_with_dedup w ad lg b dir st = (r, st'')
      \<and> (\<forall>a \<in> set (new_attempts st st''). \<not> snd (snd a))
     \<longrightarrow> cache st'' = cache st)
   \<and> (all_cached w (cache st) lg b
     \<longrightarrow> download_ad_assets_with_dedup w ad lg b dir st
           = (Inr (cached_paths w (cache st) lg b), st))"
proof (intro conjI impI)
  assume a: "download_ad_assets_with_dedup w ad lg b dir st = (Inr d, st')
      \<and> (\<forall>a \<in> set (new_attempts st st'). snd (snd a))"
  from first_run [OF conjunct1 [OF a] conjunct2 [OF a]]
  have c: "all_cached w (cache st') lg b" and d: "d = cached_paths w (cache st') lg b"
    by simp_all
  from cached_run [OF c, of ad dir] d
  show "download_ad_assets_with_dedup w ad lg b dir st' = (Inr d, st')" by simp
next
  assume a: "download_ad_assets_with_dedup w ad lg b dir st = (r, st'')
      \<and> (\<forall>a \<in> set (new_attempts st st''). \<not> snd (snd a))"
  from run_no_success [OF conjunct1 [OF a] conjunct2 [OF a]]
  show "cache st'' = cache st" .
next
  assume "all_cached w (cache st) lg b"
  then show "download_ad_assets_with_dedup w ad lg b dir st
      = (Inr (cached_paths w (cache st) lg b), st)"
    by (rule cached_run)
qed

theorem C5_second_materialization_witness:
  "download_ad_assets_with_dedup obliging_world ''7'' sample_logo repeated_assets ''out''
       fresh_state = (Inr sample_paths, after_first)
   \<and> map (\<lambda>a. snd (snd a)) (new_attempts fresh_state after_first) = [True, True, True, True]
   \<and> download_ad_assets_with_dedup obliging_world ''7'' sample_logo repeated_assets ''out''
       after_first = (Inr sample_paths, after_first)
   \<and> map (\<lambda>a. snd (snd a)) (new_attempts fresh_state after_failure) = [False]
   \<and> cache after_failure = cache fresh_state
   \<and> all_cached obliging_world (cache after_first) sample_logo repeated_assets
   \<and> cached_paths obliging_world (cache after_first) sample_logo repeated_assets = sample_paths"
proof -
  let ?run = "download_ad_assets_with_dedup obliging_world ''7'' sample_logo repeated_assets
      ''out''"
  let ?fail = "download_ad_assets_with_dedup flaky_world ''7'' None one_image ''out''"
  have f1: "fst (?run fresh_state) = Inr sample_paths" by code_simp
  have r1: "?run fresh_state = (Inr sample_paths, after_first)"
    unfolding after_first_def by (rule prod_eqI) (simp_all only: fst_conv snd_conv f1)
  have n1: "map (\<lambda>a. snd (snd a)) (new_attempts fresh_state after_first)
      = [True, True, True, True]"
    by code_simp
  have h1: "\<forall>a \<in> set (new_attempts fresh_state after_first). snd (snd a)"
  proof
    fix a assume "a \<in> set (new_attempts fresh_state after_first)"
    then have "snd (snd a) \<in> set (map (\<lambda>a. snd (snd a)) (new_attempts fresh_state after_first))"
      unfolding set_map by (rule imageI)
    then show "snd (snd a)" unfolding n1 by simp
  qed
  have r2: "?fail fresh_state = (fst (?fail fresh_state), after_failure)"
    unfolding after_failure_def by (rule prod_eqI) (simp_all only: fst_conv snd_conv)
  have n2: "map (\<lambda>a. snd (snd a)) (new_attempts fresh_state after_failure) = [False]"
    by code_simp
  have h2: "\<forall>a \<in> set (new_attempts fresh_state after_failure). \<not> snd (snd a)"
  proof
    fix a assume "a \<in> set (new_attempts fresh_state after_failure)"
    then have "snd (snd a) \<in> set (map (\<lambda>a. snd (snd a)) (new_attempts fresh_state after_failure))"
      unfolding set_map by (rule imageI)
    then show "\<not> snd (snd a)" unfolding n2 by simp
  qed
  have h3: "all_cached obliging_world (cache after_first) sample_logo repeated_assets"
    by code_simp
  note c5 = C5_second_materialization [where w = obliging_world and ad = "''7''"
      and lg = sample_logo and b = repeated_assets and dir = "''out''"]
  from c5 [where st = fresh_state and d = sample_paths and st' = after_first,
      THEN conjunct1, rule_format, OF conjI [OF r1 h1]]
  have g1: "?run after_first = (Inr sample_paths, after_first)" .
  from C5_second_materialization [where w = flaky_world and ad = "''7''" and lg = None
      and b = one_image and dir = "''out''" and st = fresh_state
      and r = "fst (?fail fresh_state)" and st'' = after_failure,
      THEN conjunct2, THEN conjunct1, rule_format, OF conjI [OF r2 h2]]
  have g2: "cache after_failure = cache fresh_state" .
  from c5 [where st = after_first, THEN conjunct2, THEN conjunct2, rule_format, OF h3]
  have "?run after_first
      = (Inr (cached_paths obliging_world (cache after_first) sample_logo repeated_assets),
         after_first)" .
  with g1 have g3: "cached_paths obliging_world (cache after_first) sample_logo repeated_assets
      = sample_paths"
    by (simp only: prod.inject sum.inject)
  from r1 n1 g1 n2 g2 h3 g3 show ?thesis by (intro conjI)
qed

section \<open>Digit runs that \<open>int\<close> refuses\<close>

lemma py_int_too_long:
  assumes "list_all is_digit d" "max_str_digits < length d"
  shows "py_int d = Inl ValueError"
proof -
  from assms(2) have ne: "d \<noteq> []" by auto
  have ns: "\<not> is_space c" if "is_digit c" for c
    using that by (auto simp: is_digit_def is_space_def Let_def)
  from ne assms(1) have "is_digit (hd d)" "is_digit (last d)"
    by (auto simp: list_all_iff)
  then have h: "\<not> is_space (hd d)" and l: "\<not> is_space (last d)" by (auto dest: ns)
  from ne h have d1: "dropWhile is_space d = d" by (cases d) auto
  from ne l have d2: "dropWhile is_space (rev d) = rev d"
    by (cases "rev d") (auto simp: last_rev hd_rev)
  have st: "py_strip d = d" by (simp add: py_strip_def d1 d2)
  from ne \<open>is_digit (hd d)\<close> have c: "hd d \<noteq> CHR ''-''" "hd d \<noteq> CHR ''+''"
    by (auto simp: is_digit_def)
  from assms(1) have f: "filter is_digit d = d" by (simp add: list_all_iff)
  have "py_int d = (case int_unsigned d of None \<Rightarrow> Inl ValueError
      | Some n \<Rightarrow> if max_str_digits < length (filter is_digit d) then Inl ValueError
                  else Inr (int n))"
    unfolding py_int_def st using ne c by (cases d) (auto simp: Let_def split: option.splits)
  with assms(2) show ?thesis
    unfolding f by (simp split: option.splits)
qed

lemma long_offset_is_api:
  assumes "list_all is_digit d" "max_str_digits < length d"
  shows "normalize_pagination_token (Some (d @ CHR ''#'' # r))
           = Inr (''api'', StrValue (d @ CHR ''#'' # r))"
proof -
  define t where "t = d @ CHR ''#'' # r"
  have mem: "CHR ''#'' \<in> set t" by (simp add: t_def)
  then have nonempty: "truthy (Some t)" by (auto simp: truthy_def)
  have nd: "\<not> is_digit CHR ''#''" by (simp add: is_digit_def)
  have "c \<noteq> CHR ''#''" if "c \<in> set d" for c
  proof
    assume "c = CHR ''#''"
    moreover from that assms(1) have "is_digit c" by (simp add: list_all_iff)
    ultimately show False using nd by simp
  qed
  then have "takeWhile (\<lambda>c. c \<noteq> CHR ''#'') (d @ CHR ''#'' # r)
      = d @ takeWhile (\<lambda>c. c \<noteq> CHR ''#'') (CHR ''#'' # r)"
    by (intro takeWhile_append2)
  then have "takeWhile (\<lambda>c. c \<noteq> CHR ''#'') t = d" by (simp add: t_def)
  with py_int_too_long [OF assms]
  have "py_int (takeWhile (\<lambda>c. c \<noteq> CHR ''#'') t) = Inl ValueError" by simp
  with mem nonempty have "normalize_pagination_token (Some t) = Inr (''api'', StrValue t)"
    by (simp add: normalize_pagination_token_def offset_branch_cases)
  then show ?thesis unfolding t_def .
qed

section \<open>A listing whose pages share ids\<close>






section \<open>The rendition that is downloaded\<close>

text \<open>
  C3. Two renditions of one video, 360p listed before 720p, have one identity.
  \<open>_deduplicate_assets\<close> keeps the first URL of an identity, so the list that reaches
  \<open>_download_ad_assets_with_dedup\<close> holds the 360p rendition alone and that one is
  downloaded. Where both renditions do reach the choice, the key is taken from the whole
  URL: a rendition whose path says 360p and whose query string holds \<open>9999p\<close> is chosen
  over the one whose path says 720p.
\<close>

theorem C3_best_rendition_not_chosen:
  "get_video_base_path (host_ok obliging_world)
       ''https://dms.licdn.com/playlist/vid/v2/A1/mp4-360p-30fp-crf28/B2/0/17?e=1&t=x''
     = get_video_base_path (host_ok obliging_world)
       ''https://dms.licdn.com/playlist/vid/v2/A1/mp4-720p-25fp-crf23/B2/0/17?e=2''
   \<and> quality ''https://dms.licdn.com/playlist/vid/v2/A1/mp4-360p-30fp-crf28/B2/0/17?e=1&t=x''
       = Inr 360
   \<and> quality ''https://dms.licdn.com/playlist/vid/v2/A1/mp4-720p-25fp-crf23/B2/0/17?e=2''
       = Inr 720
   \<and> best_url (videos two_renditions)
       = Inr ''https://dms.licdn.com/playlist/vid/v2/A1/mp4-720p-25fp-crf23/B2/0/17?e=2''
   \<and> videos (deduplicate_assets (host_ok obliging_world) two_renditions)
       = [''https://dms.licdn.com/playlist/vid/v2/A1/mp4-360p-30fp-crf28/B2/0/17?e=1&t=x'']
   \<and> attempts (snd (download_extracted obliging_world ''7'' None two_renditions ''out''
         fresh_state))
       = [(''https://dms.licdn.com/playlist/vid/v2/A1/mp4-360p-30fp-crf28/B2/0/17?e=1&t=x'',
           ''out/7/videos/7_17_1.mp4'', True)]
   \<and> get_video_base_path (\<lambda>h. True) ''https://h/vid/mp4-360p-30fp-crf28/v?t=A9999pZ''
     = get_video_base_path (\<lambda>h. True) ''https://h/vid/mp4-720p-30fp-crf28/v?t=B''
   \<and> map_sum id path (urlparse (\<lambda>h. True) ''https://h/vid/mp4-360p-30fp-crf28/v?t=A9999pZ'')
       = Inr ''/vid/mp4-360p-30fp-crf28/v''
   \<and> map_sum id path (urlparse (\<lambda>h. True) ''https://h/vid/mp4-720p-30fp-crf28/v?t=B'')
       = Inr ''/vid/mp4-720p-30fp-crf28/v''
   \<and> quality ''/vid/mp4-360p-30fp-crf28/v'' = Inr 360
   \<and> quality ''/vid/mp4-720p-30fp-crf28/v'' = Inr 720
   \<and> best_url [''https://h/vid/mp4-360p-30fp-crf28/v?t=A9999pZ'',
                ''https://h/vid/mp4-720p-30fp-crf28/v?t=B'']
       = Inr ''https://h/vid/mp4-360p-30fp-crf28/v?t=A9999pZ''"
  by code_simp

end
